theory Spec2Isabelle
  imports Complex_Main "HOL-Library.Multiset" "HOL-Library.AList" "HOL-Library.Product_Lexorder"
    "HOL-Library.Log_Nat"
begin

section \<open>Host values: strings and numbers\<close>

text \<open>
  The program is TypeScript. Its strings are modelled as lists of 8-bit code units (the
  Latin-1 range of the UTF-16 code units of the host), its numbers as the datatype
  \<open>jsnum\<close>: a finite double is represented by the rational it denotes, and every
  arithmetic operation rounds its exact result to the nearest double, ties to even, as
  IEEE-754 binary64 does (with gradual underflow, and overflow to the infinities). \<open>NaN\<close>
  and the two infinities behave as in IEEE-754. The sign of zero is not represented.
\<close>

subsection \<open>Strings\<close>

text \<open>\<open>String.prototype.toLowerCase\<close>, one code unit at a time: the letters A to Z and the
  upper-case letters of Latin-1 (0xC0 to 0xDE without the sign 0xD7) move up by 32.\<close>

definition toLowerChar :: "char \<Rightarrow> char" where
  "toLowerChar c =
     (let n = (of_char c :: nat)
      in if (65 \<le> n \<and> n \<le> 90) \<or> (192 \<le> n \<and> n \<le> 222 \<and> n \<noteq> 215)
         then char_of (n + 32) else c)"

definition toLowerCase :: "string \<Rightarrow> string" where
  "toLowerCase s = map toLowerChar s"

fun startsWith :: "string \<Rightarrow> string \<Rightarrow> bool" where
  "startsWith s [] = True"
| "startsWith [] (d # t) = False"
| "startsWith (c # s) (d # t) = (c = d \<and> startsWith s t)"

text \<open>\<open>s.includes(t)\<close>: \<open>t\<close> occurs in \<open>s\<close> as a contiguous substring.\<close>

fun strIncludes :: "string \<Rightarrow> string \<Rightarrow> bool" where
  "strIncludes [] t = (t = [])"
| "strIncludes (c # s) t = (startsWith (c # s) t \<or> strIncludes s t)"

text \<open>White space of the host (\<open>\s\<close> in a regular expression, and what \<open>trim\<close> removes).\<close>

definition isSpace :: "char \<Rightarrow> bool" where
  "isSpace c = (c \<in> set [CHR 0x09, CHR 0x0A, CHR 0x0B, CHR 0x0C, CHR 0x0D, CHR 0x20, CHR 0xA0])"

text \<open>Word characters (\<open>\w\<close> in a regular expression).\<close>

definition isWord :: "char \<Rightarrow> bool" where
  "isWord c =
     (let n = (of_char c :: nat)
      in (48 \<le> n \<and> n \<le> 57) \<or> (65 \<le> n \<and> n \<le> 90) \<or> n = 95 \<or> (97 \<le> n \<and> n \<le> 122))"

definition trim :: "string \<Rightarrow> string" where
  "trim s = rev (dropWhile isSpace (rev (dropWhile isSpace s)))"

subsection \<open>Numbers\<close>

datatype jsnum = NaN | NInf | Fin rat | PInf

definition isNaN :: "jsnum \<Rightarrow> bool" where
  "isNaN x = (x = NaN)"

fun numNeg :: "jsnum \<Rightarrow> jsnum" where
  "numNeg NaN = NaN"
| "numNeg NInf = PInf"
| "numNeg PInf = NInf"
| "numNeg (Fin a) = Fin (- a)"

text \<open>
  Rounding to the nearest double. A double is \<open>n * 2\<^sup>k\<close> with a mantissa \<open>n\<close> of at most 53
  bits and an exponent \<open>k\<close> of at least \<open>-1074\<close>. For a magnitude \<open>x\<close>, \<open>quantumExp x\<close> is the
  exponent of the doubles around \<open>x\<close>: the bit length of \<open>x\<close> less 53, and \<open>-1074\<close> in the
  subnormal range. \<open>x\<close> is rounded to the nearest multiple of \<open>2\<^sup>k\<close>, a tie to the even
  mantissa, and a result of \<open>2\<^sup>1\<^sup>0\<^sup>2\<^sup>4\<close> or more is infinite.
\<close>

definition roundHalfEven :: "rat \<Rightarrow> int" where
  "roundHalfEven y =
     (let n = \<lfloor>y\<rfloor>; f = y - of_int n
      in if f < 1 / 2 then n else if 1 / 2 < f then n + 1 else if even n then n else n + 1)"

definition subnormalScale :: rat where
  "subnormalScale = 2 ^ 1074"

definition overflowBound :: rat where
  "overflowBound = 2 ^ 1024"

definition quantumExp :: "rat \<Rightarrow> int" where
  "quantumExp x =
     (if 1 \<le> x then bitlen \<lfloor>x\<rfloor> - 53
      else max 0 (bitlen \<lfloor>x * subnormalScale\<rfloor> - 53) - 1074)"

definition roundMag :: "rat \<Rightarrow> jsnum" where
  "roundMag x =
     (let k = quantumExp x;
          r = of_int (roundHalfEven (x / 2 powi k)) * 2 powi k
      in if overflowBound \<le> r then PInf else Fin r)"

definition roundDouble :: "rat \<Rightarrow> jsnum" where
  "roundDouble x = (if x < 0 then numNeg (roundMag (- x)) else roundMag x)"

fun numAdd :: "jsnum \<Rightarrow> jsnum \<Rightarrow> jsnum" where
  "numAdd NaN y = NaN"
| "numAdd x NaN = NaN"
| "numAdd (Fin a) (Fin b) = roundDouble (a + b)"
| "numAdd PInf NInf = NaN"
| "numAdd NInf PInf = NaN"
| "numAdd PInf y = PInf"
| "numAdd NInf y = NInf"
| "numAdd (Fin a) y = y"

definition numSub :: "jsnum \<Rightarrow> jsnum \<Rightarrow> jsnum" where
  "numSub x y = numAdd x (numNeg y)"

text \<open>The relational operator \<open><\<close> on numbers; every comparison with \<open>NaN\<close> is false.\<close>

fun numLt :: "jsnum \<Rightarrow> jsnum \<Rightarrow> bool" where
  "numLt NaN y = False"
| "numLt x NaN = False"
| "numLt (Fin a) (Fin b) = (a < b)"
| "numLt x NInf = False"
| "numLt NInf y = True"
| "numLt PInf y = False"
| "numLt (Fin a) PInf = True"

definition numGt :: "jsnum \<Rightarrow> jsnum \<Rightarrow> bool" where
  "numGt x y = numLt y x"

text \<open>Equality of numbers as \<open>==\<close> and \<open>===\<close> see it: \<open>NaN\<close> equals nothing.\<close>

definition numEq :: "jsnum \<Rightarrow> jsnum \<Rightarrow> bool" where
  "numEq x y = (x \<noteq> NaN \<and> x = y)"

definition numLe :: "jsnum \<Rightarrow> jsnum \<Rightarrow> bool" where
  "numLe x y = (numLt x y \<or> numEq x y)"

definition numGe :: "jsnum \<Rightarrow> jsnum \<Rightarrow> bool" where
  "numGe x y = numLe y x"

text \<open>Division; a zero divisor is the positive zero (the sign of zero is not represented).\<close>

fun numDiv :: "jsnum \<Rightarrow> jsnum \<Rightarrow> jsnum" where
  "numDiv NaN y = NaN"
| "numDiv x NaN = NaN"
| "numDiv (Fin a) (Fin b) =
     (if b \<noteq> 0 then roundDouble (a / b)
      else if a = 0 then NaN else if 0 < a then PInf else NInf)"
| "numDiv (Fin a) y = Fin 0"
| "numDiv PInf (Fin b) = (if 0 \<le> b then PInf else NInf)"
| "numDiv NInf (Fin b) = (if 0 \<le> b then NInf else PInf)"
| "numDiv x y = NaN"

fun numMul :: "jsnum \<Rightarrow> jsnum \<Rightarrow> jsnum" where
  "numMul NaN y = NaN"
| "numMul x NaN = NaN"
| "numMul (Fin a) (Fin b) = roundDouble (a * b)"
| "numMul (Fin a) y = (if a = 0 then NaN else if 0 < a then y else numNeg y)"
| "numMul x (Fin b) = (if b = 0 then NaN else if 0 < b then x else numNeg x)"
| "numMul x y = (if x = y then PInf else NInf)"

text \<open>The steps of \<open>Math.min\<close> and \<open>Math.max\<close> over their arguments.\<close>

definition numMin2 :: "jsnum \<Rightarrow> jsnum \<Rightarrow> jsnum" where
  "numMin2 x y = (if isNaN x \<or> isNaN y then NaN else if numLt y x then y else x)"

definition numMax2 :: "jsnum \<Rightarrow> jsnum \<Rightarrow> jsnum" where
  "numMax2 x y = (if isNaN x \<or> isNaN y then NaN else if numLt x y then y else x)"

text \<open>The length of an array as a number; it is below \<open>2\<^sup>3\<^sup>2\<close>, so a double holds it
  exactly.\<close>

definition ofNat :: "nat \<Rightarrow> jsnum" where
  "ofNat n = Fin (of_nat n)"

subsection \<open>Reading a number from a string\<close>

definition isDigit :: "char \<Rightarrow> bool" where
  "isDigit c = (let n = (of_char c :: nat) in 48 \<le> n \<and> n \<le> 57)"

text \<open>The value of a digit: 0 to 9, and a to f in either case.\<close>

definition digitVal :: "char \<Rightarrow> int" where
  "digitVal c =
     (let n = (of_char c :: int)
      in if 48 \<le> n \<and> n \<le> 57 then n - 48
         else if 97 \<le> n \<and> n \<le> 102 then n - 87
         else if 65 \<le> n \<and> n \<le> 70 then n - 55
         else 0)"

definition digitsVal :: "int \<Rightarrow> string \<Rightarrow> int" where
  "digitsVal base ds = foldl (\<lambda>acc c. acc * base + digitVal c) 0 ds"

text \<open>A literal in base 2, 8 or 16 after its prefix: one digit at least, digits only. The
  value of a literal is its mathematical value, rounded once.\<close>

definition radixLit :: "nat \<Rightarrow> string \<Rightarrow> jsnum" where
  "radixLit base ds =
     (if ds \<noteq> [] \<and> list_all (\<lambda>c. c \<in> set (take base ''0123456789abcdef'') \<or>
                                    c \<in> set (take (base - 10) ''ABCDEF'')) ds
      then roundDouble (of_int (digitsVal (int base) ds)) else NaN)"

text \<open>The exponent part after \<open>e\<close> or \<open>E\<close>: an optional sign and one digit at least.\<close>

definition expPart :: "string \<Rightarrow> (bool \<times> nat) option" where
  "expPart s =
     (let (neg, ds) = (case s of [] \<Rightarrow> (False, [])
                       | c # r \<Rightarrow> if c = CHR ''-'' then (True, r)
                                  else if c = CHR ''+'' then (False, r) else (False, s))
      in if ds \<noteq> [] \<and> list_all isDigit ds then Some (neg, nat (digitsVal 10 ds)) else None)"

text \<open>An unsigned decimal literal: \<open>Infinity\<close>, or digits with an optional fraction and
  an optional exponent (\<open>12\<close>, \<open>12.\<close>, \<open>12.5\<close>, \<open>.5\<close>, \<open>1e3\<close>).\<close>

definition unsignedDec :: "string \<Rightarrow> jsnum" where
  "unsignedDec s =
     (if s = ''Infinity'' then PInf
      else
        let ip = takeWhile isDigit s; r1 = dropWhile isDigit s;
            hasDot = (r1 \<noteq> [] \<and> hd r1 = CHR ''.'');
            fp = (if hasDot then takeWhile isDigit (tl r1) else []);
            r2 = (if hasDot then dropWhile isDigit (tl r1) else r1);
            mant = (of_int (digitsVal 10 (ip @ fp)) :: rat) / 10 ^ length fp
        in if ip = [] \<and> fp = [] then NaN
           else if r2 = [] then roundDouble mant
           else if hd r2 = CHR ''e'' \<or> hd r2 = CHR ''E'' then
             (case expPart (tl r2) of
                None \<Rightarrow> NaN
              | Some (neg, e) \<Rightarrow> roundDouble (if neg then mant / 10 ^ e else mant * 10 ^ e))
           else NaN)"

text \<open>\<open>Number(s)\<close> on a string: white space is trimmed, the empty string is 0, a literal
  that is not numeric is \<open>NaN\<close>.\<close>

definition strToNum :: "string \<Rightarrow> jsnum" where
  "strToNum s =
     (let t = trim s in
      if t = [] then Fin 0
      else if startsWith t ''0x'' \<or> startsWith t ''0X'' then radixLit 16 (drop 2 t)
      else if startsWith t ''0o'' \<or> startsWith t ''0O'' then radixLit 8 (drop 2 t)
      else if startsWith t ''0b'' \<or> startsWith t ''0B'' then radixLit 2 (drop 2 t)
      else if hd t = CHR ''-'' then numNeg (unsignedDec (tl t))
      else if hd t = CHR ''+'' then unsignedDec (tl t)
      else unsignedDec t)"

subsection \<open>Writing a number as a string\<close>

text \<open>The decimal digits of an integer that is not negative.\<close>

function showNat :: "int \<Rightarrow> string" where
  "showNat n = (if n < 10 then [''0123456789'' ! nat n]
                else showNat (n div 10) @ [''0123456789'' ! nat (n mod 10)])"
  by pat_completeness auto
termination
  by (relation "measure nat") auto

declare showNat.simps [simp del]

text \<open>
  What the host provides beyond this model: the digits of a finite number other than an
  integer of magnitude up to \<open>2\<^sup>5\<^sup>3\<close> (\<open>String\<close> prints the shortest digits that read back
  as the same double, and up to \<open>2\<^sup>5\<^sup>3\<close> these are the exact digits of the integer), the
  locale's collation of two strings, and the number of arguments a call can spread before
  the host raises \<open>RangeError\<close>.
\<close>

record host =
  shortestDigits :: "rat \<Rightarrow> string"
  localeCompare :: "string \<Rightarrow> string \<Rightarrow> int"
  maxArguments :: nat

definition numToStr :: "host \<Rightarrow> jsnum \<Rightarrow> string" where
  "numToStr hst x =
     (case x of
        NaN \<Rightarrow> ''NaN''
      | PInf \<Rightarrow> ''Infinity''
      | NInf \<Rightarrow> ''-Infinity''
      | Fin r \<Rightarrow>
          if of_int \<lfloor>r\<rfloor> = r \<and> \<bar>r\<bar> \<le> 2 ^ 53
          then (if r < 0 then ''-'' else []) @ showNat \<lfloor>\<bar>r\<bar>\<rfloor>
          else shortestDigits hst r)"

section \<open>Tables\<close>

text \<open>A cell is \<open>string | number | null | undefined\<close>; a row is a sequence of cells, and
  reading a row beyond its end gives \<open>undefined\<close>.\<close>

datatype cell = CNum jsnum | CStr string | CNull | CUndef

type_synonym row = "cell list"

definition cellAt :: "row \<Rightarrow> nat \<Rightarrow> cell" where
  "cellAt r i = (if i < length r then r ! i else CUndef)"

text \<open>\<open>Number(v)\<close> and \<open>String(v)\<close> on a cell.\<close>

fun toNumber :: "cell \<Rightarrow> jsnum" where
  "toNumber (CNum x) = x"
| "toNumber (CStr s) = strToNum s"
| "toNumber CNull = Fin 0"
| "toNumber CUndef = NaN"

fun toStr :: "host \<Rightarrow> cell \<Rightarrow> string" where
  "toStr hst (CNum x) = numToStr hst x"
| "toStr hst (CStr s) = s"
| "toStr hst CNull = ''null''"
| "toStr hst CUndef = ''undefined''"

text \<open>Loose equality \<open>==\<close>: \<open>null\<close> and \<open>undefined\<close> equal each other and nothing else,
  and a string compared with a number is read as a number first.\<close>

fun looseEq :: "cell \<Rightarrow> cell \<Rightarrow> bool" where
  "looseEq (CNum x) (CNum y) = numEq x y"
| "looseEq (CStr s) (CStr t) = (s = t)"
| "looseEq (CNum x) (CStr t) = numEq x (strToNum t)"
| "looseEq (CStr s) (CNum y) = numEq (strToNum s) y"
| "looseEq CNull CNull = True"
| "looseEq CNull CUndef = True"
| "looseEq CUndef CNull = True"
| "looseEq CUndef CUndef = True"
| "looseEq x y = False"

text \<open>\<open>Array.prototype.findIndex\<close>; \<open>None\<close> is the result \<open>-1\<close>.\<close>

fun findIndex :: "('a \<Rightarrow> bool) \<Rightarrow> 'a list \<Rightarrow> nat option" where
  "findIndex P [] = None"
| "findIndex P (x # xs) = (if P x then Some 0 else map_option Suc (findIndex P xs))"

text \<open>The errors the operations raise: \<open>Error\<close> with its message, and the host's
  \<open>TypeError\<close> and \<open>RangeError\<close>.\<close>

datatype error = Error string | TypeError | RangeError

text \<open>\<open>Math.min(...values)\<close> and \<open>Math.max(...values)\<close>: the array is spread into the
  arguments of one call, which raises \<open>RangeError\<close> when they are more than the host can
  take; on no arguments the results are the infinities.\<close>

definition mathMin :: "host \<Rightarrow> jsnum list \<Rightarrow> error + jsnum" where
  "mathMin hst values =
     (if maxArguments hst < length values then Inl RangeError
      else Inr (foldl numMin2 PInf values))"

definition mathMax :: "host \<Rightarrow> jsnum list \<Rightarrow> error + jsnum" where
  "mathMax hst values =
     (if maxArguments hst < length values then Inl RangeError
      else Inr (foldl numMax2 NInf values))"

text \<open>\<open>Array.prototype.map\<close> with a callback that can raise: the first error ends the
  call.\<close>

fun arrayMap :: "('a \<Rightarrow> error + 'b) \<Rightarrow> 'a list \<Rightarrow> error + 'b list" where
  "arrayMap f [] = Inr []"
| "arrayMap f (x # xs) =
     (case f x of
        Inl e \<Rightarrow> Inl e
      | Inr y \<Rightarrow> (case arrayMap f xs of Inl e \<Rightarrow> Inl e | Inr ys \<Rightarrow> Inr (y # ys)))"

section \<open>ExcelTools\<close>

subsection \<open>Column lookup\<close>

text \<open>The predicate of \<open>filterData\<close>'s lookup: either string contains the other.\<close>

definition matchesEitherWay :: "string \<Rightarrow> string \<Rightarrow> bool" where
  "matchesEitherWay column h =
     (strIncludes (toLowerCase h) (toLowerCase column) \<or> strIncludes (toLowerCase column) (toLowerCase h))"

text \<open>The predicate of every other lookup: the header contains the name.\<close>

definition headerContains :: "string \<Rightarrow> string \<Rightarrow> bool" where
  "headerContains column h = strIncludes (toLowerCase h) (toLowerCase column)"

definition notFound :: "string \<Rightarrow> string \<Rightarrow> error" where
  \<open>notFound what column = Error (what @ '' "'' @ column @ ''" not found'')\<close>

subsection \<open>filterData\<close>

record filterSpec =
  fColumn :: string
  fOperator :: string
  fValue :: cell

record filterResult =
  filteredRows :: "row list"
  totalMatches :: nat
  filter' :: filterSpec

text \<open>The callback of \<open>rows.filter\<close>: the \<open>switch\<close> on the operator.\<close>

definition rowMatches :: "host \<Rightarrow> nat \<Rightarrow> string \<Rightarrow> cell \<Rightarrow> row \<Rightarrow> bool" where
  "rowMatches hst columnIndex operator v r =
     (let cellValue = cellAt r columnIndex in
      if operator = ''>'' then numGt (toNumber cellValue) (toNumber v)
      else if operator = ''<'' then numLt (toNumber cellValue) (toNumber v)
      else if operator = ''>='' then numGe (toNumber cellValue) (toNumber v)
      else if operator = ''<='' then numLe (toNumber cellValue) (toNumber v)
      else if operator = ''='' then looseEq cellValue v
      else if operator = ''!='' then \<not> looseEq cellValue v
      else if operator = ''contains''
        then strIncludes (toLowerCase (toStr hst cellValue)) (toLowerCase (toStr hst v))
      else True)"

definition filterData ::
  "host \<Rightarrow> string list \<Rightarrow> row list \<Rightarrow> string \<Rightarrow> string \<Rightarrow> cell \<Rightarrow> error + filterResult" where
  "filterData hst headers rows column operator v =
     (case findIndex (matchesEitherWay column) headers of
        None \<Rightarrow> Inl (notFound ''Column'' column)
      | Some columnIndex \<Rightarrow>
          let matching = List.filter (rowMatches hst columnIndex operator v) rows
          in Inr \<lparr> filteredRows = take 100 matching,
                   totalMatches = length matching,
                   filter' = \<lparr> fColumn = column, fOperator = operator, fValue = v \<rparr> \<rparr>)"


subsection \<open>aggregateData\<close>

text \<open>The \<open>switch\<close> on the operation, as it stands in both branches of \<open>aggregateData\<close>.\<close>

definition aggregateSwitch :: "host \<Rightarrow> string \<Rightarrow> jsnum list \<Rightarrow> error + jsnum" where
  "aggregateSwitch hst operation values =
     (if operation = ''sum'' then Inr (foldl numAdd (Fin 0) values)
      else if operation = ''avg''
        then Inr (numDiv (foldl numAdd (Fin 0) values) (ofNat (length values)))
      else if operation = ''count'' then Inr (ofNat (length values))
      else if operation = ''min'' then mathMin hst values
      else if operation = ''max'' then mathMax hst values
      else Inr (Fin 0))"

text \<open>\<open>rows.map((row) => Number(row[columnIndex])).filter((v) => !isNaN(v))\<close>\<close>

definition numericValues :: "nat \<Rightarrow> row list \<Rightarrow> jsnum list" where
  "numericValues columnIndex rows =
     List.filter (\<lambda>v. \<not> isNaN v) (map (\<lambda>r. toNumber (cellAt r columnIndex)) rows)"

text \<open>
  An object used as a dictionary: its own properties in insertion order. A name that
  every object inherits from \<open>Object.prototype\<close> is found by a read although it is not
  an own property.
\<close>

type_synonym 'v obj = "(string \<times> 'v) list"

definition inheritedNames :: "string list" where
  "inheritedNames =
     [''constructor'', ''__defineGetter__'', ''__defineSetter__'', ''hasOwnProperty'',
      ''__lookupGetter__'', ''__lookupSetter__'', ''isPrototypeOf'', ''propertyIsEnumerable'',
      ''toString'', ''valueOf'', ''__proto__'', ''toLocaleString'']"

text \<open>
  \<open>if (!groups[key]) groups[key] = []; groups[key].push(value)\<close>: an own property is an
  array and is extended; an inherited name reads as an object that is truthy and has no
  \<open>push\<close>, so the call raises \<open>TypeError\<close>; any other key gets a fresh array.
\<close>

definition pushToGroup :: "jsnum list obj \<Rightarrow> string \<Rightarrow> jsnum \<Rightarrow> error + jsnum list obj" where
  "pushToGroup groups key v =
     (case map_of groups key of
        Some values \<Rightarrow> Inr (AList.update key (values @ [v]) groups)
      | None \<Rightarrow> if key \<in> set inheritedNames then Inl TypeError
                else Inr (AList.update key [v] groups))"

text \<open>The \<open>rows.forEach\<close> that fills the groups, shared by \<open>aggregateData\<close> (group-by
  column, aggregated column) and \<open>createPivotTable\<close> (row field, value field).\<close>

fun collectGroups ::
  "host \<Rightarrow> nat \<Rightarrow> nat \<Rightarrow> row list \<Rightarrow> jsnum list obj \<Rightarrow> error + jsnum list obj" where
  "collectGroups hst keyIndex valueIndex [] groups = Inr groups"
| "collectGroups hst keyIndex valueIndex (r # rows) groups =
     (let groupValue = toStr hst (cellAt r keyIndex);
          v = toNumber (cellAt r valueIndex)
      in if \<not> isNaN v
         then (case pushToGroup groups groupValue v of
                 Inl e \<Rightarrow> Inl e
               | Inr groups' \<Rightarrow> collectGroups hst keyIndex valueIndex rows groups')
         else collectGroups hst keyIndex valueIndex rows groups)"

text \<open>\<open>Object.entries\<close>: the keys that are array indices come first, in ascending numeric
  order, then the other keys in insertion order.\<close>

definition isArrayIndex :: "string \<Rightarrow> bool" where
  "isArrayIndex s =
     (s \<noteq> [] \<and> list_all isDigit s \<and> (s = ''0'' \<or> hd s \<noteq> CHR ''0'') \<and>
      digitsVal 10 s < 4294967295)"

definition objectEntries :: "'v obj \<Rightarrow> (string \<times> 'v) list" where
  "objectEntries ob =
     sort_key (\<lambda>kv. digitsVal 10 (fst kv)) (List.filter (\<lambda>kv. isArrayIndex (fst kv)) ob) @
     List.filter (\<lambda>kv. \<not> isArrayIndex (fst kv)) ob"

record simpleAggregate =
  sOperation :: string
  sColumn :: string
  sResult :: jsnum
  sCount :: nat

record groupEntry =
  eGroup :: string
  eResult :: jsnum
  eCount :: nat

record groupedAggregate =
  gOperation :: string
  gColumn :: string
  gGroupBy :: string
  gResults :: "groupEntry list"

datatype aggregateResult = Simple simpleAggregate | Grouped groupedAggregate

text \<open>The callback of \<open>Object.entries(groups).map\<close>.\<close>

definition groupResult :: "host \<Rightarrow> string \<Rightarrow> string \<times> jsnum list \<Rightarrow> error + groupEntry" where
  "groupResult hst operation kv =
     (case aggregateSwitch hst operation (snd kv) of
        Inl e \<Rightarrow> Inl e
      | Inr result \<Rightarrow> Inr \<lparr> eGroup = fst kv, eResult = result, eCount = length (snd kv) \<rparr>)"

text \<open>The optional \<open>groupBy\<close> is \<open>None\<close> when the caller leaves it out; \<open>!groupBy\<close> also
  holds of the empty string.\<close>

definition aggregateData ::
  "host \<Rightarrow> string list \<Rightarrow> row list \<Rightarrow> string \<Rightarrow> string \<Rightarrow> string option
     \<Rightarrow> error + aggregateResult" where
  "aggregateData hst headers rows column operation groupBy =
     (case findIndex (headerContains column) headers of
        None \<Rightarrow> Inl (notFound ''Column'' column)
      | Some columnIndex \<Rightarrow>
          if groupBy = None \<or> groupBy = Some []
          then
            let values = numericValues columnIndex rows
            in (case aggregateSwitch hst operation values of
                  Inl e \<Rightarrow> Inl e
                | Inr result \<Rightarrow>
                    Inr (Simple \<lparr> sOperation = operation, sColumn = column,
                                   sResult = result, sCount = length values \<rparr>))
          else
            (case findIndex (headerContains (the groupBy)) headers of
               None \<Rightarrow> Inl (notFound ''Group by column'' (the groupBy))
             | Some groupByIndex \<Rightarrow>
                 (case collectGroups hst groupByIndex columnIndex rows [] of
                    Inl e \<Rightarrow> Inl e
                  | Inr groups \<Rightarrow>
                      (case arrayMap (groupResult hst operation) (objectEntries groups) of
                         Inl e \<Rightarrow> Inl e
                       | Inr results \<Rightarrow>
                           Inr (Grouped \<lparr> gOperation = operation, gColumn = column,
                                           gGroupBy = the groupBy,
                                           gResults = results \<rparr>)))))"

subsection \<open>sortData\<close>

datatype sortOrder = Asc | Desc

text \<open>The comparison function handed to \<open>sort\<close>.\<close>

definition compareRows :: "host \<Rightarrow> nat \<Rightarrow> sortOrder \<Rightarrow> row \<Rightarrow> row \<Rightarrow> jsnum" where
  "compareRows hst columnIndex order a b =
     (let aVal = cellAt a columnIndex; bVal = cellAt b columnIndex;
          aNum = toNumber aVal; bNum = toNumber bVal
      in if \<not> isNaN aNum \<and> \<not> isNaN bNum
         then (if order = Asc then numSub aNum bNum else numSub bNum aNum)
         else
           let aStr = toLowerCase (toStr hst aVal); bStr = toLowerCase (toStr hst bVal)
           in if order = Asc then Fin (of_int (localeCompare hst aStr bStr))
              else Fin (of_int (localeCompare hst bStr aStr)))"

text \<open>
  \<open>Array.prototype.sort\<close> with a comparison function is a stable sort: an element moves
  behind another only where the function returns a positive number (\<open>NaN\<close> counts as 0).
  The model is insertion sort. Where the function is not a consistent ordering of the
  elements the host leaves the order open, and the model is one of the orders it allows.
\<close>

fun insertSorted :: "('a \<Rightarrow> 'a \<Rightarrow> jsnum) \<Rightarrow> 'a \<Rightarrow> 'a list \<Rightarrow> 'a list" where
  "insertSorted cmp x [] = [x]"
| "insertSorted cmp x (y # ys) =
     (if numLt (Fin 0) (cmp x y) then y # insertSorted cmp x ys else x # y # ys)"

definition arraySort :: "('a \<Rightarrow> 'a \<Rightarrow> jsnum) \<Rightarrow> 'a list \<Rightarrow> 'a list" where
  "arraySort cmp xs = foldr (insertSorted cmp) xs []"

record sortSpec =
  sbColumn :: string
  sbOrder :: sortOrder

record sortResult =
  sortedRows :: "row list"
  totalRows :: nat
  sortBy :: sortSpec

definition sortData ::
  "host \<Rightarrow> string list \<Rightarrow> row list \<Rightarrow> string \<Rightarrow> sortOrder \<Rightarrow> error + sortResult" where
  "sortData hst headers rows column order =
     (case findIndex (headerContains column) headers of
        None \<Rightarrow> Inl (notFound ''Column'' column)
      | Some columnIndex \<Rightarrow>
          let sorted = arraySort (compareRows hst columnIndex order) rows
          in Inr \<lparr> sortedRows = take 100 sorted,
                   totalRows = length sorted,
                   sortBy = \<lparr> sbColumn = column, sbOrder = order \<rparr> \<rparr>)"

subsection \<open>createPivotTable\<close>

definition pivotSwitch :: "string \<Rightarrow> jsnum list \<Rightarrow> jsnum" where
  "pivotSwitch operation values =
     (if operation = ''sum'' then foldl numAdd (Fin 0) values
      else if operation = ''count'' then ofNat (length values)
      else if operation = ''avg'' then numDiv (foldl numAdd (Fin 0) values) (ofNat (length values))
      else Fin 0)"

text \<open>
  The record of one group is the object literal
  \<open>{ [rowField]: row, [operation]: result, count: values.length }\<close>: its keys are
  computed, and a key written twice keeps the later value.
\<close>

definition pivotRecord :: "string \<Rightarrow> string \<Rightarrow> string \<Rightarrow> jsnum list \<Rightarrow> cell obj" where
  "pivotRecord rowField operation row values =
     AList.update ''count'' (CNum (ofNat (length values)))
       (AList.update operation (CNum (pivotSwitch operation values))
          (AList.update rowField (CStr row) []))"

record pivotResult =
  pivotTable :: "cell obj list"
  pRowField :: string
  pValueField :: string
  pOperation :: string
  totalGroups :: nat

definition createPivotTable ::
  "host \<Rightarrow> string list \<Rightarrow> row list \<Rightarrow> string \<Rightarrow> string \<Rightarrow> string \<Rightarrow> error + pivotResult" where
  "createPivotTable hst headers rows rowField valueField operation =
     (case findIndex (headerContains rowField) headers of
        None \<Rightarrow> Inl (notFound ''Row field'' rowField)
      | Some rowIndex \<Rightarrow>
          (case findIndex (headerContains valueField) headers of
             None \<Rightarrow> Inl (notFound ''Value field'' valueField)
           | Some valueIndex \<Rightarrow>
               (case collectGroups hst rowIndex valueIndex rows [] of
                  Inl e \<Rightarrow> Inl e
                | Inr pivot \<Rightarrow>
                    let results = map (\<lambda>kv. pivotRecord rowField operation (fst kv) (snd kv))
                                      (objectEntries pivot)
                    in Inr \<lparr> pivotTable = results, pRowField = rowField,
                             pValueField = valueField, pOperation = operation,
                             totalGroups = length results \<rparr>)))"

section \<open>EnhancedExcelAgent: validateData\<close>

record issue =
  iColumn :: string
  nullCount :: nat
  uniqueCount :: "nat option"
  totalCount :: "nat option"
  nullPercentage :: jsnum

record validation =
  validationIssues :: "issue list"
  totalIssues :: nat

text \<open>\<open>v === null || v === undefined || v === ''\<close>\<close>

definition isBlank :: "cell \<Rightarrow> bool" where
  "isBlank v = (v = CNull \<or> v = CUndef \<or> v = CStr [])"

definition percentage :: "nat \<Rightarrow> nat \<Rightarrow> jsnum" where
  "percentage n whole = numMul (numDiv (ofNat n) (ofNat whole)) (Fin 100)"

text \<open>The issue pushed for a named column; \<open>new Set(values).size\<close> counts the distinct
  cells.\<close>

definition columnIssue :: "string \<Rightarrow> cell list \<Rightarrow> issue" where
  "columnIssue column values =
     (let n = length (List.filter isBlank values)
      in \<lparr> iColumn = column, nullCount = n,
           uniqueCount = Some (length (remdups values)),
           totalCount = Some (length values),
           nullPercentage = percentage n (length values) \<rparr>)"

text \<open>The body of \<open>headers.forEach((header, index) => ...)\<close>.\<close>

definition headerIssues :: "row list \<Rightarrow> string \<times> nat \<Rightarrow> issue list" where
  "headerIssues rows hi =
     (let values = map (\<lambda>r. cellAt r (snd hi)) rows;
          n = length (List.filter isBlank values)
      in if 0 < n
         then [\<lparr> iColumn = fst hi, nullCount = n, uniqueCount = None, totalCount = None,
                  nullPercentage = percentage n (length values) \<rparr>]
         else [])"

text \<open>The optional \<open>column\<close> is \<open>None\<close> when left out; \<open>if (column)\<close> fails for the empty
  string as well.\<close>

definition validateData :: "string list \<Rightarrow> row list \<Rightarrow> string option \<Rightarrow> validation" where
  "validateData headers rows column =
     (let issues =
        (if column \<noteq> None \<and> column \<noteq> Some []
         then (case findIndex (headerContains (the column)) headers of
                 Some colIndex \<Rightarrow> [columnIssue (the column) (map (\<lambda>r. cellAt r colIndex) rows)]
               | None \<Rightarrow> [])
         else concat (map (headerIssues rows) (zip headers [0..<length headers])))
      in \<lparr> validationIssues = issues, totalIssues = length issues \<rparr>)"

section \<open>ColumnMapper\<close>

text \<open>The synonym table, in the order \<open>Object.entries\<close> lists it (no key is an array
  index, so this is the order of the source).\<close>

definition synonyms :: "(string \<times> string list) list" where
  "synonyms =
     [(''quantity'', [''qty'', ''amount'', ''count'', ''number'']),
      (''price'', [''cost'', ''rate'', ''value'', ''amount'']),
      (''revenue'', [''sales'', ''income'', ''earnings'']),
      (''customer'', [''client'', ''buyer'', ''user'']),
      (''date'', [''time'', ''timestamp'', ''created'']),
      (''product'', [''item'', ''goods'', ''merchandise'']),
      (''region'', [''area'', ''location'', ''territory'']),
      (''category'', [''type'', ''class'', ''group''])]"

text \<open>\<open>s.replace(/\s+/g, rep)\<close>: every maximal run of white space becomes \<open>rep\<close>; the
  flag tells whether the previous character was white space.\<close>

fun replaceSpaceRuns :: "string \<Rightarrow> bool \<Rightarrow> string \<Rightarrow> string" where
  "replaceSpaceRuns rep inRun [] = []"
| "replaceSpaceRuns rep inRun (c # s) =
     (if isSpace c
      then (if inRun then replaceSpaceRuns rep True s else rep @ replaceSpaceRuns rep True s)
      else c # replaceSpaceRuns rep False s)"

text \<open>\<open>s.replace(/[^\w\s]/g, " ")\<close>\<close>

definition replaceSpecial :: "string \<Rightarrow> string" where
  "replaceSpecial s = map (\<lambda>c. if isWord c \<or> isSpace c then c else CHR '' '') s"

text \<open>The cleaning steps of \<open>normalizeColumnName\<close>: lower case, trim, special characters
  to spaces, runs of white space to one space, trim.\<close>

definition cleanName :: "string \<Rightarrow> string" where
  "cleanName columnName =
     trim (replaceSpaceRuns '' '' False (replaceSpecial (trim (toLowerCase columnName))))"

definition normalizeColumnName :: "string \<Rightarrow> string" where
  "normalizeColumnName columnName =
     (if columnName = [] then []
      else
        let normalized = cleanName columnName
        in case List.find (\<lambda>entry. list_ex (\<lambda>synonym. strIncludes normalized synonym) (snd entry))
                          synonyms of
             Some entry \<Rightarrow> fst entry
           | None \<Rightarrow> replaceSpaceRuns ''_'' False normalized)"

definition mapColumns :: "string list \<Rightarrow> string list" where
  "mapColumns headers = map normalizeColumnName headers"

text \<open>
  \<open>levenshteinDistance\<close> fills a matrix row by row; \<open>levRow\<close> computes the cells
  \<open>matrix[j][1..]\<close> of one row from the row above (\<open>prev\<close>, from \<open>matrix[j-1][i-1]\<close> on)
  and the cell to the left.
\<close>

fun levRow :: "string \<Rightarrow> char \<Rightarrow> nat list \<Rightarrow> nat \<Rightarrow> nat list" where
  "levRow (a # s) c (d # u # prev) left =
     (let indicator = (if a = c then 0 else 1);
          v = min (min (left + 1) (u + 1)) (d + indicator)
      in v # levRow s c (u # prev) v)"
| "levRow s c prev left = []"

definition levNextRow :: "string \<Rightarrow> nat list \<Rightarrow> char \<Rightarrow> nat list" where
  "levNextRow str1 prev c = (let first = hd prev + 1 in first # levRow str1 c prev first)"

definition levenshteinDistance :: "string \<Rightarrow> string \<Rightarrow> nat" where
  "levenshteinDistance str1 str2 =
     last (foldl (levNextRow str1) [0..<Suc (length str1)] str2)"

text \<open>
  \<open>findBestMatch\<close>; the result \<open>None\<close> is \<open>undefined\<close> (the first element of an empty
  list). \<open>if (exactMatch)\<close> fails when nothing was found and also when the header found is
  the empty string. The best score starts at infinity, written \<open>None\<close>.
\<close>

definition truthy :: "string option \<Rightarrow> bool" where
  "truthy m = (m \<noteq> None \<and> m \<noteq> Some [])"

definition fuzzyStep :: "string \<Rightarrow> string option \<times> nat option \<Rightarrow> string \<Rightarrow> string option \<times> nat option" where
  "fuzzyStep normalizedSearch best col =
     (let score = levenshteinDistance normalizedSearch (normalizeColumnName col)
      in if (case snd best of None \<Rightarrow> True | Some bestScore \<Rightarrow> score < bestScore)
         then (Some col, Some score) else best)"

definition findBestMatch :: "string \<Rightarrow> string list \<Rightarrow> string option" where
  "findBestMatch searchColumn availableColumns =
     (let normalizedSearch = normalizeColumnName searchColumn;
          exactMatch = List.find (\<lambda>col. normalizeColumnName col = normalizedSearch) availableColumns
      in if truthy exactMatch then exactMatch
         else
           let partialMatch = List.find (\<lambda>col.
                   strIncludes (normalizeColumnName col) normalizedSearch \<or>
                   strIncludes normalizedSearch (normalizeColumnName col)) availableColumns
           in if truthy partialMatch then partialMatch
              else fst (foldl (fuzzyStep normalizedSearch)
                          (case availableColumns of [] \<Rightarrow> None | c # cs \<Rightarrow> Some c, None)
                          availableColumns))"

section \<open>Notions used in the statements\<close>

text \<open>The numeric values of the value column in the rows whose key column reads \<open>k\<close>, in
  the order of the rows.\<close>

definition groupValues :: "host \<Rightarrow> nat \<Rightarrow> nat \<Rightarrow> row list \<Rightarrow> string \<Rightarrow> jsnum list" where
  "groupValues hst keyIndex valueIndex rows k =
     numericValues valueIndex (List.filter (\<lambda>r. toStr hst (cellAt r keyIndex) = k) rows)"

text \<open>A sort key for numbers: the order of \<open>numLt\<close> on the numbers that are not \<open>NaN\<close>,
  as a linear order on pairs.\<close>

definition sortKey :: "jsnum \<Rightarrow> nat \<times> rat" where
  "sortKey x = (case x of NInf \<Rightarrow> (0, 0) | Fin r \<Rightarrow> (1, r) | PInf \<Rightarrow> (2, 0) | NaN \<Rightarrow> (3, 0))"

text \<open>The doubles among the rationals, the values of the type \<open>number\<close>, and the cells
  that hold one.\<close>

definition isDouble :: "rat \<Rightarrow> bool" where
  "isDouble r \<longleftrightarrow> roundDouble r = Fin r"

definition isNumber :: "jsnum \<Rightarrow> bool" where
  "isNumber v = (case v of Fin r \<Rightarrow> isDouble r | _ \<Rightarrow> True)"

definition validCell :: "cell \<Rightarrow> bool" where
  "validCell c = (case c of CNum x \<Rightarrow> isNumber x | _ \<Rightarrow> True)"

text \<open>The binade of the exponent \<open>k\<close>: the magnitudes of 53 bits above \<open>2\<^sup>k\<close>, which are
  rounded to a multiple of \<open>2\<^sup>k\<close>; the lowest binade takes in everything below it.\<close>

definition inBinade :: "rat \<Rightarrow> int \<Rightarrow> bool" where
  "inBinade x k \<longleftrightarrow>
     - 1074 \<le> k \<and> x < 2 powi (k + 53) \<and> (- 1074 < k \<longrightarrow> 2 powi (k + 52) \<le> x)"

text \<open>
  Integers on which the additions of the program are exact: every value is an integer, and
  the absolute values add up to at most \<open>2\<^sup>5\<^sup>3\<close>, so that every partial sum, in any order,
  is an integer a double represents exactly.
\<close>

definition finVal :: "jsnum \<Rightarrow> rat" where
  "finVal v = (case v of Fin q \<Rightarrow> q | _ \<Rightarrow> 0)"

definition isInteger :: "jsnum \<Rightarrow> bool" where
  "isInteger v = (case v of Fin q \<Rightarrow> of_int \<lfloor>q\<rfloor> = q | _ \<Rightarrow> False)"

definition safeIntegers :: "jsnum list \<Rightarrow> bool" where
  "safeIntegers vs = (list_all isInteger vs \<and> sum_list (map (\<lambda>v. \<bar>finVal v\<bar>) vs) \<le> 2 ^ 53)"

section \<open>Example data\<close>

text \<open>A host for the examples: strings are collated by code unit, no example needs the
  digits of a fraction, and a call takes 65535 arguments.\<close>

fun codeUnitCompare :: "string \<Rightarrow> string \<Rightarrow> int" where
  "codeUnitCompare [] [] = 0"
| "codeUnitCompare [] (d # t) = - 1"
| "codeUnitCompare (c # s) [] = 1"
| "codeUnitCompare (c # s) (d # t) =
     (if (of_char c :: nat) < of_char d then - 1
      else if (of_char d :: nat) < of_char c then 1 else codeUnitCompare s t)"

definition sampleHost :: host where
  "sampleHost = \<lparr> shortestDigits = (\<lambda>r. []), localeCompare = codeUnitCompare,
                   maxArguments = 65535 \<rparr>"

text \<open>160 rows with the amounts 0 to 159.\<close>

definition rows160 :: "row list" where
  "rows160 = map (\<lambda>n. [CNum (ofNat n)]) [0..<160]"

text \<open>A table with a group (West) that has no numeric amount.\<close>

definition regionTable :: "row list" where
  "regionTable =
     [[CStr ''East'', CNum (Fin 5)], [CStr ''West'', CStr ''n/a''],
      [CStr ''East'', CNull], [CStr ''North'', CNum (Fin 7)]]"

text \<open>101 rows: the amount 2, then a hundred times the amount 1.\<close>

definition rows101 :: "row list" where
  "rows101 = [CNum (Fin 2)] # replicate 100 [CNum (Fin 1)]"

text \<open>Four rows whose amounts are all numeric.\<close>

definition numericRows :: "row list" where
  "numericRows = [[CNum (Fin 3)], [CStr ''10''], [CNull], [CNum (Fin 3), CStr ''x'']]"

text \<open>Three amounts whose sum depends on the order of the additions: \<open>10\<^sup>1\<^sup>6\<close>, 1 and
  \<open>-10\<^sup>1\<^sup>6\<close>, the outer two in one group.\<close>

definition roundingTable :: "row list" where
  "roundingTable =
     [[CStr ''a'', CNum (Fin 10000000000000000)], [CStr ''b'', CNum (Fin 1)],
      [CStr ''a'', CNum (Fin (- 10000000000000000))]]"

text \<open>A table of small integers in two groups.\<close>

definition integerTable :: "row list" where
  "integerTable =
     [[CStr ''East'', CNum (Fin 5)], [CStr ''West'', CNum (Fin 7)],
      [CStr ''East'', CNull], [CStr ''West'', CStr ''12'']]"

section \<open>Rounding to the nearest double\<close>

text \<open>
  The facts about \<open>roundDouble\<close> that the proofs use: the exponent it chooses is that of
  the binade of its argument, the doubles are its fixed points, it is idempotent, it leaves
  the integers up to \<open>2\<^sup>5\<^sup>3\<close> as they are, and it keeps the sign of a difference of two
  doubles.
\<close>

lemma roundHalfEven_of_int [simp]: "roundHalfEven (of_int m) = m"
  by (simp add: roundHalfEven_def)

lemma roundHalfEven_bounds: "\<lfloor>y\<rfloor> \<le> roundHalfEven y \<and> roundHalfEven y \<le> \<lfloor>y\<rfloor> + 1"
  by (simp add: roundHalfEven_def Let_def)

lemma powi_nonneg: "0 \<le> k \<Longrightarrow> (2::rat) powi k = 2 ^ nat k"
  by (simp add: power_int_def)

lemma subnormalScale_powi: "subnormalScale = 2 powi 1074"
  by (simp add: subnormalScale_def)

lemma subnormalScale_pos [simp]: "0 < subnormalScale"
  by (simp add: subnormalScale_def)

lemma quantumExp_binade:
  assumes "0 \<le> x"
  shows "inBinade x (quantumExp x)"
proof (cases "1 \<le> x")
  case True
  let ?b = "bitlen \<lfloor>x\<rfloor>"
  from True have pos: "0 < \<lfloor>x\<rfloor>" by linarith
  from bitlen_bounds [OF pos] have lo: "2 ^ nat (?b - 1) \<le> \<lfloor>x\<rfloor>" and hi: "\<lfloor>x\<rfloor> < 2 ^ nat ?b"
    by simp_all
  have b1: "1 \<le> ?b"
    using pos bitlen_eq_zero_iff [of "\<lfloor>x\<rfloor>"] bitlen_nonneg [of "\<lfloor>x\<rfloor>"] by linarith
  have "x < of_int (\<lfloor>x\<rfloor> + 1)" by linarith
  also have "\<dots> \<le> of_int (2 ^ nat ?b)"
    using hi by (metis of_int_le_iff zless_imp_add1_zle add.commute)
  finally have up: "x < 2 powi ?b"
    using b1 by (simp add: powi_nonneg)
  have "(2::rat) powi (?b - 1) = of_int (2 ^ nat (?b - 1))"
    using b1 by (simp add: powi_nonneg)
  also have "\<dots> \<le> of_int \<lfloor>x\<rfloor>"
    using lo by (metis of_int_le_iff)
  also have "\<dots> \<le> x" by simp
  finally have low: "2 powi (?b - 1) \<le> x" .
  from True b1 up low show ?thesis
    by (simp add: inBinade_def quantumExp_def)
next
  case False
  define N where "N = \<lfloor>x * subnormalScale\<rfloor>"
  define b where "b = bitlen N"
  define k where "k = max 0 (b - 53) - 1074"
  have q: "quantumExp x = k"
    using False by (simp add: quantumExp_def k_def b_def N_def)
  have N0: "0 \<le> N" using assms by (simp add: N_def less_imp_le)
  have b0: "0 \<le> b" unfolding b_def by (rule bitlen_nonneg)
  have Nx: "of_int N \<le> x * subnormalScale" "x * subnormalScale < of_int (N + 1)"
    unfolding N_def by linarith+
  have hi: "N + 1 \<le> 2 ^ nat b"
  proof (cases "N = 0")
    case True
    then show ?thesis by simp
  next
    case False
    with N0 have "0 < N" by linarith
    from bitlen_bounds [OF this] show ?thesis unfolding b_def by linarith
  qed
  note Nx(2)
  also have "of_int (N + 1) \<le> (of_int (2 ^ nat b) :: rat)"
    using hi by (metis of_int_le_iff)
  also have "\<dots> = 2 powi b"
    using b0 by (simp add: powi_nonneg)
  also have "\<dots> \<le> 2 powi (k + 53 + 1074)"
    by (rule power_int_increasing) (simp_all add: k_def)
  also have "\<dots> = 2 powi (k + 53) * subnormalScale"
    unfolding subnormalScale_powi by (subst power_int_add) simp_all
  finally have up: "x < 2 powi (k + 53)"
    by simp
  have low: "2 powi (k + 52) \<le> x" if "- 1074 < k"
  proof -
    from that have b: "53 < b" by (simp add: k_def)
    then have kb: "b - 1 = k + 52 + 1074" by (simp add: k_def)
    from b N0 have "0 < N"
      using bitlen_eq_zero_iff [of N] unfolding b_def by linarith
    from bitlen_bounds [OF this] have "2 ^ nat (b - 1) \<le> N" unfolding b_def by simp
    then have "of_int (2 ^ nat (b - 1)) \<le> (of_int N :: rat)"
      by (metis of_int_le_iff)
    also note Nx(1)
    finally have "2 powi (b - 1) \<le> x * subnormalScale"
      using b by (simp add: powi_nonneg)
    moreover have "(2::rat) powi (b - 1) = 2 powi (k + 52) * subnormalScale"
      unfolding kb subnormalScale_powi by (subst power_int_add) simp_all
    ultimately show ?thesis by simp
  qed
  have "- 1074 \<le> k" by (simp add: k_def)
  with up low show ?thesis
    unfolding q by (simp add: inBinade_def)
qed

lemma inBinade_unique:
  assumes "inBinade x k" "inBinade x l"
  shows "k = l"
proof -
  have "\<not> k < l" if "inBinade x k" "inBinade x l" for k l
  proof
    assume "k < l"
    with that have "2 powi (l + 52) \<le> x" "x < 2 powi (k + 53)"
      by (auto simp: inBinade_def)
    moreover have "(2::rat) powi (k + 53) \<le> 2 powi (l + 52)"
      using \<open>k < l\<close> by (intro power_int_increasing) simp_all
    ultimately show False by linarith
  qed
  from this [of k l] this [of l k] assms show ?thesis by force
qed


text \<open>The mantissa and exponent that \<open>roundMag\<close> computes.\<close>

lemma roundMag_parts:
  assumes "0 \<le> x"
  defines "k \<equiv> quantumExp x"
  defines "n \<equiv> roundHalfEven (x / 2 powi k)"
  shows "- 1074 \<le> k" "0 \<le> n" "n \<le> 2 ^ 53" "- 1074 < k \<Longrightarrow> 2 ^ 52 \<le> n"
    "roundMag x = (if overflowBound \<le> of_int n * 2 powi k then PInf
                   else Fin (of_int n * 2 powi k))"
    "2 powi k \<le> x \<Longrightarrow> 1 \<le> n"
proof -
  define y where "y = x / 2 powi k"
  have p: "(0::rat) < 2 powi k" by simp
  from quantumExp_binade [OF assms(1)] have
    b: "- 1074 \<le> k" "x < 2 powi (k + 53)" "- 1074 < k \<Longrightarrow> 2 powi (k + 52) \<le> x"
    by (auto simp: inBinade_def k_def)
  show "- 1074 \<le> k" by (rule b)
  have y0: "0 \<le> y" using assms(1) p by (simp add: y_def)
  have "(2::rat) powi (k + 53) = 2 powi k * 2 ^ 53"
    by (subst power_int_add) simp_all
  with b(2) p have y1: "y < 2 ^ 53"
    by (simp add: y_def pos_divide_less_eq mult.commute)
  have n: "\<lfloor>y\<rfloor> \<le> n" "n \<le> \<lfloor>y\<rfloor> + 1"
    using roundHalfEven_bounds [of y] by (simp_all add: n_def y_def)
  from y0 have "0 \<le> \<lfloor>y\<rfloor>" by simp
  with n show "0 \<le> n" by linarith
  from y1 have "\<lfloor>y\<rfloor> < 2 ^ 53"
    by (metis floor_less_iff of_int_numeral of_int_power)
  with n show "n \<le> 2 ^ 53" by linarith
  show "2 ^ 52 \<le> n" if "- 1074 < k"
  proof -
    have "(2::rat) powi (k + 52) = 2 powi k * 2 ^ 52"
      by (subst power_int_add) simp_all
    with b(3) [OF that] p have "2 ^ 52 \<le> y"
      by (simp add: y_def pos_le_divide_eq mult.commute)
    then have "2 ^ 52 \<le> \<lfloor>y\<rfloor>"
      by (metis le_floor_iff of_int_numeral of_int_power)
    with n show ?thesis by linarith
  qed
  show "roundMag x = (if overflowBound \<le> of_int n * 2 powi k then PInf
                   else Fin (of_int n * 2 powi k))"
    by (simp add: roundMag_def Let_def n_def k_def)
  show "1 \<le> n" if "2 powi k \<le> x"
  proof -
    from that p have "1 \<le> y" by (simp add: y_def pos_le_divide_eq)
    then have "1 \<le> \<lfloor>y\<rfloor>" by simp
    with n show ?thesis by linarith
  qed
qed

text \<open>Every value \<open>n * 2\<^sup>k\<close> with a mantissa of at most 53 bits, normalised above the
  smallest exponent, is a double: rounding leaves it as it is.\<close>

lemma roundMag_double:
  assumes k: "- 1074 \<le> k" and n: "0 \<le> n" "n \<le> 2 ^ 53" "- 1074 < k \<Longrightarrow> 2 ^ 52 \<le> n"
    and fin: "of_int n * 2 powi k < overflowBound"
  shows "roundMag (of_int n * 2 powi k) = Fin (of_int n * 2 powi k)"
proof -
  define r :: rat where "r = of_int n * 2 powi k"
  define l where "l = (if n = 2 ^ 53 then k + 1 else k)"
  define m where "m = (if n = 2 ^ 53 then 2 ^ 52 else n)"
  have r0: "0 \<le> r" using n(1) by (simp add: r_def)
  have rm: "r = of_int m * 2 powi l"
  proof (cases "n = 2 ^ 53")
    case True
    have "(2::rat) ^ 53 * 2 powi k = 2 ^ 52 * 2 powi (k + 1)"
      by (subst power_int_add) simp_all
    with True show ?thesis by (simp add: r_def m_def l_def)
  next
    case False
    then show ?thesis by (simp add: r_def m_def l_def)
  qed
  have "inBinade r l"
  proof (cases "n = 2 ^ 53")
    case True
    then have r: "r = 2 powi (k + 53)"
      unfolding r_def by (subst power_int_add) simp_all
    have "(2::rat) powi (k + 53) < 2 powi (k + 1 + 53)"
      by (rule power_int_strict_increasing) simp_all
    with True k show ?thesis
      by (simp add: inBinade_def l_def r add.commute)
  next
    case False
    with n(2) have lt: "n < 2 ^ 53" by simp
    have "r < 2 ^ 53 * 2 powi k"
      unfolding r_def using lt by (simp add: of_int_less_iff [of n "2 ^ 53", where ?'a = rat, simplified])
    also have "\<dots> = 2 powi (k + 53)"
      by (subst power_int_add) simp_all
    finally have up: "r < 2 powi (k + 53)" .
    have low: "2 powi (k + 52) \<le> r" if "- 1074 < k"
    proof -
      have "(2::rat) powi (k + 52) = 2 ^ 52 * 2 powi k"
        by (subst power_int_add) simp_all
      also have "\<dots> \<le> of_int n * 2 powi k"
        using n(3) [OF that] by (simp add: of_int_le_iff [of "2 ^ 52" n, where ?'a = rat, simplified])
      finally show ?thesis by (simp add: r_def)
    qed
    from False k up low show ?thesis
      by (simp add: inBinade_def l_def)
  qed
  with quantumExp_binade [OF r0] have q: "quantumExp r = l"
    by (rule inBinade_unique)
  have "r / 2 powi l = of_int m"
    by (simp add: rm)
  then have "roundHalfEven (r / 2 powi l) = m"
    by simp
  then have "roundMag r = (if overflowBound \<le> r then PInf else Fin r)"
    by (simp add: roundMag_def q Let_def rm [symmetric])
  with fin show ?thesis by (simp add: r_def)
qed

lemma roundMag_idem:
  assumes "0 \<le> x" "roundMag x = Fin r"
  shows "roundMag r = Fin r" "0 \<le> r"
proof -
  note p = roundMag_parts [OF assms(1)]
  from assms(2) p(5) have r: "r = of_int (roundHalfEven (x / 2 powi quantumExp x)) * 2 powi quantumExp x"
    and fin: "\<not> overflowBound \<le> r"
    by (auto split: if_splits)
  show "roundMag r = Fin r"
    unfolding r using p(1-4) fin [unfolded r] by (intro roundMag_double) auto
  show "0 \<le> r"
    unfolding r using p(2) by simp
qed


lemma overflowBound_gt: "2 ^ 53 < overflowBound"
  unfolding overflowBound_def by (rule power_strict_increasing) simp_all

lemma roundMag_zero [simp]: "roundMag 0 = Fin 0"
  using roundMag_double [of "- 1074" 0] overflowBound_gt
  by (simp add: order.strict_trans [of 0 "2 ^ 53" overflowBound])

lemma roundMag_nat:
  assumes "0 \<le> m" "m \<le> 2 ^ 53"
  shows "roundMag (of_int m) = Fin (of_int m)"
proof -
  define k where "k = quantumExp (of_int m)"
  define n where "n = roundHalfEven (of_int m / 2 powi k)"
  have m0: "(0::rat) \<le> of_int m" using assms(1) by simp
  note p = roundMag_parts [OF m0, folded k_def, folded n_def]
  from quantumExp_binade [OF m0] have
    b: "- 1074 < k \<Longrightarrow> 2 powi (k + 52) \<le> (of_int m :: rat)"
    by (auto simp: inBinade_def k_def)
  have m53: "(of_int m :: rat) \<le> 2 powi 53"
    using assms(2) by (simp add: of_int_le_iff [of m "2 ^ 53", where ?'a = rat, simplified])
  have k1: "k \<le> 1"
  proof (rule ccontr)
    assume "\<not> k \<le> 1"
    then have "2 \<le> k" by simp
    then have "(2::rat) powi 54 \<le> 2 powi (k + 52)"
      by (intro power_int_increasing) simp_all
    with b \<open>2 \<le> k\<close> m53 have "(2::rat) powi 54 \<le> 2 powi 53" by linarith
    then show False by simp
  qed
  have "of_int n * 2 powi k = (of_int m :: rat)"
  proof (cases "k \<le> 0")
    case True
    then have "(2::rat) powi k = inverse (2 ^ nat (- k))"
      using power_int_minus [of "2::rat" "- k"] powi_nonneg [of "- k"] by simp
    then have "of_int m / 2 powi k = (of_int (m * 2 ^ nat (- k)) :: rat)"
      by (simp add: divide_inverse)
    then have "n = m * 2 ^ nat (- k)"
      unfolding n_def by (simp only: roundHalfEven_of_int)
    then show ?thesis
      using \<open>(2::rat) powi k = inverse (2 ^ nat (- k))\<close> by simp
  next
    case False
    with k1 have k: "k = 1" by simp
    with b have "2 powi 53 \<le> (of_int m :: rat)" by simp
    with m53 have "(of_int m :: rat) = 2 ^ 53" by simp
    then have "(of_int m :: rat) / 2 powi k = of_int (2 ^ 52)"
      by (simp add: k)
    then have "n = 2 ^ 52"
      unfolding n_def by (simp only: roundHalfEven_of_int)
    with \<open>(of_int m :: rat) = 2 ^ 53\<close> show ?thesis by (simp add: k)
  qed
  moreover have "(of_int m :: rat) < overflowBound"
    using m53 overflowBound_gt by simp
  ultimately show ?thesis using p(5) by simp
qed

lemma roundDouble_int:
  assumes "of_int \<lfloor>r\<rfloor> = r" "\<bar>r\<bar> \<le> 2 ^ 53"
  shows "roundDouble r = Fin r"
proof (cases "r < 0")
  case True
  from assms(1) have "- r = of_int (- \<lfloor>r\<rfloor>)" by (metis of_int_minus)
  moreover have "0 \<le> - \<lfloor>r\<rfloor>" using True by simp
  moreover have "- \<lfloor>r\<rfloor> \<le> 2 ^ 53"
  proof -
    from assms(2) True have "- r \<le> 2 ^ 53" by simp
    with \<open>- r = of_int (- \<lfloor>r\<rfloor>)\<close> have "(of_int (- \<lfloor>r\<rfloor>) :: rat) \<le> of_int (2 ^ 53)" by simp
    then show ?thesis by (simp only: of_int_le_iff)
  qed
  ultimately have "roundMag (- r) = Fin (- r)"
    using roundMag_nat [of "- \<lfloor>r\<rfloor>"] by simp
  with True show ?thesis by (simp add: roundDouble_def)
next
  case False
  have "0 \<le> \<lfloor>r\<rfloor>" using False by simp
  moreover have "\<lfloor>r\<rfloor> \<le> 2 ^ 53"
  proof -
    from assms have "(of_int \<lfloor>r\<rfloor> :: rat) \<le> of_int (2 ^ 53)" by simp
    then show ?thesis by (simp only: of_int_le_iff)
  qed
  ultimately have "roundMag r = Fin r"
    using roundMag_nat [of "\<lfloor>r\<rfloor>"] assms(1) by simp
  with False show ?thesis by (simp add: roundDouble_def)
qed

lemma roundDouble_idem:
  assumes "roundDouble x = Fin r"
  shows "roundDouble r = Fin r"
proof (cases "x < 0")
  case True
  with assms have "numNeg (roundMag (- x)) = Fin r" by (simp add: roundDouble_def)
  then have m: "roundMag (- x) = Fin (- r)"
    by (cases "roundMag (- x)") simp_all
  from True have "0 \<le> - x" by simp
  from roundMag_idem [OF this m] have i: "roundMag (- r) = Fin (- r)" "r \<le> 0" by simp_all
  show ?thesis
  proof (cases "r < 0")
    case True
    with i show ?thesis by (simp add: roundDouble_def)
  next
    case False
    with i have "r = 0" by simp
    then show ?thesis by (simp add: roundDouble_def)
  qed
next
  case False
  with assms have m: "roundMag x = Fin r" by (simp add: roundDouble_def)
  from False have "0 \<le> x" by simp
  from roundMag_idem [OF this m] show ?thesis by (simp add: roundDouble_def)
qed

lemma roundDouble_not_NaN [simp]: "roundDouble x \<noteq> NaN"
proof -
  have "roundMag y \<noteq> NaN" for y by (simp add: roundMag_def Let_def)
  then have "numNeg (roundMag y) \<noteq> NaN" for y by (cases "roundMag y") simp_all
  then show ?thesis using \<open>\<And>y. roundMag y \<noteq> NaN\<close> by (simp add: roundDouble_def)
qed

text \<open>Doubles lie on the grid of multiples of \<open>2\<^sup>-\<^sup>1\<^sup>0\<^sup>7\<^sup>4\<close>, and rounding keeps the sign of
  everything that is at least one grid step from zero.\<close>

lemma roundMag_grid:
  assumes "0 \<le> x" "roundMag x = Fin r"
  shows "\<exists>j. r * subnormalScale = of_int j"
proof -
  note p = roundMag_parts [OF assms(1)]
  define k where "k = quantumExp x"
  define n where "n = roundHalfEven (x / 2 powi k)"
  from assms(2) p(5) have r: "r = of_int n * 2 powi k"
    by (auto simp: k_def n_def split: if_splits)
  from p(1) have "0 \<le> k + 1074" by (simp add: k_def)
  have "r * subnormalScale = of_int n * (2 powi k * 2 powi 1074)"
    by (simp add: r subnormalScale_powi)
  also have "2 powi k * 2 powi 1074 = (2::rat) powi (k + 1074)"
    by (subst power_int_add) simp_all
  also have "\<dots> = 2 ^ nat (k + 1074)"
    using \<open>0 \<le> k + 1074\<close> by (rule powi_nonneg)
  finally have "r * subnormalScale = of_int (n * 2 ^ nat (k + 1074))" by simp
  then show ?thesis ..
qed

lemma isDouble_grid:
  assumes "isDouble r"
  shows "\<exists>j. r * subnormalScale = of_int j"
proof (cases "r < 0")
  case True
  with assms have "numNeg (roundMag (- r)) = Fin r" by (simp add: isDouble_def roundDouble_def)
  then have "roundMag (- r) = Fin (- r)" by (cases "roundMag (- r)") simp_all
  with True roundMag_grid [of "- r" "- r"] obtain j where "- r * subnormalScale = of_int j"
    by auto
  then have "r * subnormalScale = of_int (- j)" by simp
  then show ?thesis ..
next
  case False
  with assms roundMag_grid [of r r] show ?thesis by (simp add: isDouble_def roundDouble_def)
qed

lemma roundMag_pos:
  assumes "1 \<le> x * subnormalScale"
  shows "roundMag x = PInf \<or> (\<exists>r. roundMag x = Fin r \<and> 0 < r)"
proof -
  have sp: "0 < subnormalScale" by simp
  from assms have x0: "0 \<le> x"
    using sp by (metis less_le_trans mult_less_0_iff not_le zero_less_one order_less_imp_le not_less_iff_gr_or_eq)
  note p = roundMag_parts [OF x0]
  define k where "k = quantumExp x"
  define n where "n = roundHalfEven (x / 2 powi k)"
  from quantumExp_binade [OF x0] have
    b: "- 1074 \<le> k" "- 1074 < k \<Longrightarrow> 2 powi (k + 52) \<le> x"
    by (auto simp: inBinade_def k_def)
  have "2 powi k \<le> x"
  proof (cases "- 1074 < k")
    case True
    have "(2::rat) powi k \<le> 2 powi (k + 52)"
      by (rule power_int_increasing) simp_all
    with b(2) [OF True] show ?thesis by simp
  next
    case False
    with b(1) have k: "k = - 1074" by simp
    have "(2::rat) powi (- 1074) = inverse subnormalScale"
      by (simp add: subnormalScale_powi power_int_minus)
    with assms sp show ?thesis
      by (simp add: k pos_divide_le_eq inverse_eq_divide)
  qed
  from p(6) [OF this [unfolded k_def]] have "1 \<le> n" by (simp add: n_def k_def)
  then have "(0::rat) < of_int n * 2 powi k" by simp
  with p(5) show ?thesis by (auto simp: n_def k_def)
qed

lemma roundMag_nonneg:
  assumes "0 \<le> x"
  shows "roundMag x = PInf \<or> (\<exists>r. roundMag x = Fin r \<and> 0 \<le> r)"
  using roundMag_parts(2,5) [OF assms] by auto

lemma roundDouble_pos_iff:
  assumes "x * subnormalScale = of_int j"
  shows "numLt (Fin 0) (roundDouble x) \<longleftrightarrow> 0 < x"
proof -
  have sp: "0 < subnormalScale" by simp
  consider "0 < x" | "x = 0" | "x < 0" by linarith
  then show ?thesis
  proof cases
    case 1
    with sp have "0 < x * subnormalScale" by simp
    with assms have "0 < j" by simp
    then have "(1::rat) \<le> of_int j" by simp
    with assms have "1 \<le> x * subnormalScale" by simp
    from roundMag_pos [OF this] 1 show ?thesis
      by (auto simp: roundDouble_def)
  next
    case 2
    then show ?thesis by (simp add: roundDouble_def)
  next
    case 3
    then have "0 \<le> - x" by simp
    from roundMag_nonneg [OF this] 3 show ?thesis
      by (auto simp: roundDouble_def)
  qed
qed

lemma isDouble_diff_pos_iff:
  assumes "isDouble a" "isDouble b"
  shows "numLt (Fin 0) (roundDouble (a - b)) \<longleftrightarrow> b < a"
proof -
  from isDouble_grid [OF assms(1)] isDouble_grid [OF assms(2)] obtain i j where
    "a * subnormalScale = of_int i" "b * subnormalScale = of_int j" by blast
  then have "(a + - b) * subnormalScale = of_int (i - j)"
    by (simp add: algebra_simps)
  from roundDouble_pos_iff [OF this] show ?thesis by simp
qed

text \<open>Rounding a value by hand: its binade, then the rounded mantissa.\<close>

lemma roundMag_eval:
  assumes "inBinade x k" "0 \<le> x" "roundHalfEven (x / 2 powi k) = n"
    "of_int n * 2 powi k < overflowBound"
  shows "roundMag x = Fin (of_int n * 2 powi k)"
proof -
  from quantumExp_binade [OF assms(2)] assms(1) have "quantumExp x = k"
    by (rule inBinade_unique)
  with assms(3,4) show ?thesis by (simp add: roundMag_def Let_def)
qed

lemma roundHalfEven_tie: "roundHalfEven (of_int m + 1 / 2) = (if even m then m else m + 1)"
proof -
  have "\<lfloor>(of_int m :: rat) + 1 / 2\<rfloor> = m" by linarith
  then show ?thesis by (simp add: roundHalfEven_def Let_def)
qed

lemma overflowBound_gt64: "2 ^ 64 < overflowBound"
  unfolding overflowBound_def by (rule power_strict_increasing) simp_all

lemma round_1e16: "roundDouble 10000000000000000 = Fin 10000000000000000"
proof -
  have "roundMag (of_int 5000000000000000 * 2 powi 1) = Fin (of_int 5000000000000000 * 2 powi 1)"
    by (rule roundMag_double) (use overflowBound_gt64 in simp_all)
  then show ?thesis by (simp add: roundDouble_def)
qed

lemma round_1e16_plus_1: "roundDouble 10000000000000001 = Fin 10000000000000000"
proof -
  have b: "inBinade 10000000000000001 1"
    by (simp add: inBinade_def)
  have "(10000000000000001::rat) / 2 powi 1 = of_int 5000000000000000 + 1 / 2"
    by simp
  then have r: "roundHalfEven (10000000000000001 / 2 powi 1) = 5000000000000000"
    by (simp only: roundHalfEven_tie) simp
  have "roundMag 10000000000000001 = Fin (of_int 5000000000000000 * 2 powi 1)"
    by (rule roundMag_eval [OF b _ r]) (use overflowBound_gt64 in simp_all)
  then show ?thesis by (simp add: roundDouble_def)
qed
lemma numNeg_numNeg [simp]: "numNeg (numNeg x) = x"
  by (cases x) simp_all

lemma roundDouble_minus: "roundDouble (- x) = numNeg (roundDouble x)"
proof -
  consider "0 < x" | "x = 0" | "x < 0" by linarith
  then show ?thesis
    by cases (simp_all add: roundDouble_def)
qed

lemma isDouble_int: "of_int \<lfloor>r\<rfloor> = r \<Longrightarrow> \<bar>r\<bar> \<le> 2 ^ 53 \<Longrightarrow> isDouble r"
  by (simp add: isDouble_def roundDouble_int)

lemma isDouble_zero [simp]: "isDouble 0"
  by (simp add: isDouble_def roundDouble_def)

lemma isDouble_neg: "isDouble r \<Longrightarrow> isDouble (- r)"
  by (simp add: isDouble_def roundDouble_minus)

lemma isNumber_roundDouble [simp]: "isNumber (roundDouble x)"
  by (cases "roundDouble x") (auto simp: isNumber_def isDouble_def dest: roundDouble_idem)

lemma isNumber_numNeg: "isNumber x \<Longrightarrow> isNumber (numNeg x)"
  by (cases x) (simp_all add: isNumber_def isDouble_neg)

lemma isNumber_numAdd [simp]: "isNumber (numAdd x y)"
  by (cases x; cases y) (simp_all add: isNumber_def [of NaN] isNumber_def [of PInf]
      isNumber_def [of NInf])

lemma numAdd_zero: "isNumber x \<Longrightarrow> numAdd x (Fin 0) = x"
  by (cases x) (simp_all add: isNumber_def isDouble_def)

lemma isNumber_foldl_numAdd: "isNumber a \<Longrightarrow> isNumber (foldl numAdd a xs)"
  by (induction xs arbitrary: a) simp_all

lemma isNumber_unsignedDec [simp]: "isNumber (unsignedDec s)"
  by (simp add: unsignedDec_def Let_def isNumber_def [of NaN] isNumber_def [of PInf]
      split: option.splits prod.splits)

lemma isNumber_strToNum [simp]: "isNumber (strToNum s)"
  by (simp add: strToNum_def radixLit_def Let_def isNumber_numNeg isNumber_def [of NaN]
      isNumber_def [of "Fin 0"])

lemma isNumber_toNumber: "validCell c \<Longrightarrow> isNumber (toNumber c)"
  by (cases c) (simp_all add: validCell_def isNumber_def [of NaN] isNumber_def [of "Fin 0"])

section \<open>Facts about the host functions\<close>

lemmas str_defs = toLowerCase_def toLowerChar_def trim_def isSpace_def isWord_def Let_def
  char_of_def bit_Suc_0_iff

lemmas num_defs = strToNum_def unsignedDec_def expPart_def radixLit_def isDigit_def
  digitsVal_def digitVal_def isNaN_def ofNat_def roundDouble_int

lemmas lookup_defs = headerContains_def matchesEitherWay_def str_defs

lemmas group_defs = pushToGroup_def inheritedNames_def objectEntries_def isArrayIndex_def
  cellAt_def Let_def

lemma startsWith_Nil [simp]: "startsWith s []"
  by (cases s) simp_all

lemma strIncludes_Nil [simp]: "strIncludes s []"
  by (cases s) simp_all

lemma findIndex_None_iff: "findIndex P xs = None \<longleftrightarrow> (\<forall>x\<in>set xs. \<not> P x)"
  by (induction xs) auto

lemma findIndex_Some_lt: "findIndex P xs = Some i \<Longrightarrow> i < length xs \<and> P (xs ! i)"
  by (induction xs arbitrary: i) (auto split: if_splits)

lemma maxArguments_sampleHost [simp]: "maxArguments sampleHost = 65535"
  by (simp add: sampleHost_def)

lemma arrayMap_Inl: "arrayMap f xs = Inl e \<Longrightarrow> \<exists>x\<in>set xs. f x = Inl e"
  by (induction xs) (auto split: sum.splits)

lemma arrayMap_map: "(\<And>x. x \<in> set xs \<Longrightarrow> f x = Inr (g x)) \<Longrightarrow> arrayMap f xs = Inr (map g xs)"
  by (induction xs) auto

lemma aggregateSwitch_Inl:
  "aggregateSwitch hst operation vs = Inl e \<Longrightarrow> e = RangeError \<and> maxArguments hst < length vs"
  by (auto simp: aggregateSwitch_def mathMin_def mathMax_def split: if_splits)

lemma groupResult_Inr:
  "groupResult hst operation kv = Inr e \<Longrightarrow>
   eGroup e = fst kv \<and> eCount e = length (snd kv) \<and>
   aggregateSwitch hst operation (snd kv) = Inr (eResult e)"
  by (auto simp: groupResult_def split: sum.splits)

lemma groupResult_Inl: "groupResult hst operation kv = Inl e \<Longrightarrow> e = RangeError"
  by (auto simp: groupResult_def split: sum.splits dest: aggregateSwitch_Inl)

lemma arrayMap_Inr_mem: "arrayMap f xs = Inr ys \<Longrightarrow> x \<in> set xs \<Longrightarrow> \<exists>y\<in>set ys. f x = Inr y"
  by (induction xs arbitrary: ys) (auto split: sum.splits)

lemma arrayMap_Inr_set: "arrayMap f xs = Inr ys \<Longrightarrow> y \<in> set ys \<Longrightarrow> \<exists>x\<in>set xs. f x = Inr y"
  by (induction xs arbitrary: ys) (auto split: sum.splits)

lemma arrayMap_groups:
  assumes "arrayMap (groupResult hst operation) kvs = Inr results"
  shows "map eGroup results = map fst kvs"
  using assms
  by (induction kvs arbitrary: results) (auto split: sum.splits dest: groupResult_Inr)

section \<open>filterData: the cap and the count\<close>

text \<open>
  C1. When the column resolves, \<open>filterData\<close> returns in \<open>filteredRows\<close> the first
  \<open>min(100, n)\<close> matching rows in the order of the table, and \<open>totalMatches\<close> is the number
  \<open>n\<close> of all matching rows; with 150 matching rows it returns 100 rows and reports 150.
\<close>

theorem filterData_cap:
  assumes "findIndex (matchesEitherWay column) headers = Some i"
  shows "\<exists>r. filterData hst headers rows column operator v = Inr r \<and>
     filteredRows r = take (min 100 (length (List.filter (rowMatches hst i operator v) rows)))
                           (List.filter (rowMatches hst i operator v) rows) \<and>
     totalMatches r = length (List.filter (rowMatches hst i operator v) rows) \<and>
     length (filteredRows r) = min 100 (totalMatches r)"
  using assms by (simp add: filterData_def Let_def min_def)

lemma rows160_matching:
  "List.filter (rowMatches sampleHost 0 ''>='' (CNum (Fin 10))) rows160 =
     map (\<lambda>n. [CNum (ofNat n)]) [10..<160]"
  unfolding rows160_def
  by (simp add: rowMatches_def cellAt_def numGe_def numLe_def numEq_def ofNat_def
      upt_rec[of _ "numeral _"] upt_rec[of 0 "numeral _"])

theorem filterData_cap_witness:
  "findIndex (matchesEitherWay ''amount'') [''Amount''] = Some 0 \<and>
   (\<exists>r. filterData sampleHost [''Amount''] rows160 ''amount'' ''>='' (CNum (Fin 10)) = Inr r \<and>
        filteredRows r = map (\<lambda>n. [CNum (ofNat n)]) [10..<110] \<and>
        totalMatches r = 150 \<and> length (filteredRows r) = 100)"
proof -
  have h: "findIndex (matchesEitherWay ''amount'') [''Amount''] = Some 0"
    by (simp add: matchesEitherWay_def str_defs)
  from filterData_cap [OF h, of sampleHost rows160 "''>=''" "CNum (Fin 10)"]
  obtain r where r: "filterData sampleHost [''Amount''] rows160 ''amount'' ''>='' (CNum (Fin 10)) = Inr r"
    "filteredRows r = take (min 100 (length (List.filter (rowMatches sampleHost 0 ''>='' (CNum (Fin 10))) rows160)))
                           (List.filter (rowMatches sampleHost 0 ''>='' (CNum (Fin 10))) rows160)"
    "totalMatches r = length (List.filter (rowMatches sampleHost 0 ''>='' (CNum (Fin 10))) rows160)"
    by blast
  have "filteredRows r = map (\<lambda>n. [CNum (ofNat n)]) [10..<110]"
    unfolding r(2) rows160_matching by (simp add: take_map)
  moreover have "totalMatches r = 150"
    unfolding r(3) rows160_matching by simp
  ultimately show ?thesis using h r(1) by simp
qed

section \<open>normalizeColumnName on "Unit Price"\<close>

text \<open>
  C9. \<open>normalizeColumnName("Unit Price")\<close> is the slug \<open>unit_price\<close>: the cleaned name
  \<open>unit price\<close> contains no alias of the synonym table, in which \<open>price\<close> has the aliases
  cost, rate, value and amount.
\<close>

theorem normalize_unit_price:
  "normalizeColumnName ''Unit Price'' = ''unit_price'' \<and>
   cleanName ''Unit Price'' = ''unit price'' \<and>
   map_of synonyms ''price'' = Some [''cost'', ''rate'', ''value'', ''amount''] \<and>
   list_all (\<lambda>entry. list_all (\<lambda>synonym. \<not> strIncludes ''unit price'' synonym) (snd entry)) synonyms"
  by (simp add: normalizeColumnName_def cleanName_def replaceSpecial_def synonyms_def str_defs)

section \<open>validateData on a column that does not resolve\<close>

lemma headerContains_imp: "headerContains column h \<Longrightarrow> matchesEitherWay column h"
  by (simp add: headerContains_def matchesEitherWay_def)

lemma validateData_no_header:
  assumes "\<forall>h\<in>set headers. \<not> headerContains column h"
  shows "validateData headers rows (Some column) = \<lparr> validationIssues = [], totalIssues = 0 \<rparr>"
proof (cases "column = []")
  case True
  with assms have "headers = []"
    by (cases headers) (auto simp: headerContains_def toLowerCase_def)
  with True show ?thesis by (simp add: validateData_def)
next
  case False
  from assms have "findIndex (headerContains column) headers = None"
    by (simp add: findIndex_None_iff)
  with False show ?thesis by (simp add: validateData_def)
qed

text \<open>
  C8. When the column name matches no header (neither string contains the other),
  \<open>validateData\<close> returns the empty issue list with \<open>totalIssues = 0\<close> and raises nothing,
  while \<open>filterData\<close>, \<open>aggregateData\<close>, \<open>sortData\<close> and \<open>createPivotTable\<close> raise the
  error that names the column.
\<close>

theorem validateData_unresolved:
  assumes "\<forall>h\<in>set headers. \<not> matchesEitherWay column h"
  shows "validateData headers rows (Some column) = \<lparr> validationIssues = [], totalIssues = 0 \<rparr> \<and>
         filterData hst headers rows column operator v = Inl (notFound ''Column'' column) \<and>
         aggregateData hst headers rows column operation groupBy = Inl (notFound ''Column'' column) \<and>
         sortData hst headers rows column order = Inl (notFound ''Column'' column) \<and>
         createPivotTable hst headers rows column valueField operation =
           Inl (notFound ''Row field'' column)"
proof -
  from assms have one: "\<forall>h\<in>set headers. \<not> headerContains column h"
    using headerContains_imp by blast
  have two: "findIndex (matchesEitherWay column) headers = None"
    using assms by (simp add: findIndex_None_iff)
  have one': "findIndex (headerContains column) headers = None"
    using one by (simp add: findIndex_None_iff)
  show ?thesis
    using validateData_no_header [OF one] two one'
    by (simp add: filterData_def aggregateData_def sortData_def createPivotTable_def)
qed

theorem validateData_unresolved_witness:
  "\<not> matchesEitherWay ''Region'' ''Order Date'' \<and> \<not> matchesEitherWay ''Region'' ''Qty'' \<and>
   validateData [''Order Date'', ''Qty''] [[CStr ''2024-01-01'', CNull]] (Some ''Region'') =
     \<lparr> validationIssues = [], totalIssues = 0 \<rparr> \<and>
   sortData sampleHost [''Order Date'', ''Qty''] [[CStr ''2024-01-01'', CNull]] ''Region'' Asc =
     Inl (Error ''Column \"Region\" not found'')"
proof -
  have h: "\<forall>h\<in>set [''Order Date'', ''Qty'']. \<not> matchesEitherWay ''Region'' h"
    by (simp add: matchesEitherWay_def str_defs)
  show ?thesis
    using h validateData_unresolved [OF h, of "[[CStr ''2024-01-01'', CNull]]" sampleHost _ _ _ _ Asc]
    by (simp add: notFound_def)
qed

section \<open>Groups\<close>

lemma pushToGroup_Inr:
  assumes "pushToGroup g k v = Inr g'"
  shows "map_of g' = (map_of g)(k \<mapsto> (case map_of g k of None \<Rightarrow> [] | Some vs \<Rightarrow> vs) @ [v])"
    and "distinct (map fst g) \<Longrightarrow> distinct (map fst g')"
    and "fst ` set g' = insert k (fst ` set g)"
    and "k \<in> set inheritedNames \<Longrightarrow> map_of g k \<noteq> None"
proof -
  from assms obtain vs where g': "g' = AList.update k (vs @ [v]) g"
    and vs: "vs = (case map_of g k of None \<Rightarrow> [] | Some vs \<Rightarrow> vs)"
    by (auto simp: pushToGroup_def split: option.splits if_splits)
  show "map_of g' = (map_of g)(k \<mapsto> (case map_of g k of None \<Rightarrow> [] | Some vs \<Rightarrow> vs) @ [v])"
    by (simp add: g' vs update_conv')
  show "distinct (map fst g) \<Longrightarrow> distinct (map fst g')"
    by (simp add: g' distinct_update)
  show "fst ` set g' = insert k (fst ` set g)"
    by (simp add: g' dom_update)
  show "k \<in> set inheritedNames \<Longrightarrow> map_of g k \<noteq> None"
    using assms by (auto simp: pushToGroup_def split: option.splits if_splits)
qed

lemma pushToGroup_Inl:
  "pushToGroup g k v = Inl e \<longleftrightarrow> e = TypeError \<and> map_of g k = None \<and> k \<in> set inheritedNames"
  by (auto simp: pushToGroup_def split: option.splits)

lemma groupValues_Nil [simp]: "groupValues hst ki vi [] k = []"
  by (simp add: groupValues_def numericValues_def)

lemma groupValues_Cons:
  "groupValues hst ki vi (r # rows) k =
     (if toStr hst (cellAt r ki) = k \<and> \<not> isNaN (toNumber (cellAt r vi))
      then toNumber (cellAt r vi) # groupValues hst ki vi rows k
      else groupValues hst ki vi rows k)"
  by (simp add: groupValues_def numericValues_def)

lemma groupValues_append:
  "groupValues hst ki vi (xs @ ys) k = groupValues hst ki vi xs k @ groupValues hst ki vi ys k"
  by (simp add: groupValues_def numericValues_def)

lemma collectGroups_Inr:
  assumes "collectGroups hst ki vi rows g0 = Inr g" "distinct (map fst g0)"
  shows "distinct (map fst g) \<and>
         (\<forall>k. map_of g k =
            (case map_of g0 k of
               Some vs \<Rightarrow> Some (vs @ groupValues hst ki vi rows k)
             | None \<Rightarrow> if groupValues hst ki vi rows k = [] then None
                       else Some (groupValues hst ki vi rows k)))"
  using assms
proof (induction rows arbitrary: g0)
  case Nil
  then show ?case by (auto split: option.splits)
next
  case (Cons r rows)
  show ?case
  proof (cases "isNaN (toNumber (cellAt r vi))")
    case True
    with Cons.prems have "collectGroups hst ki vi rows g0 = Inr g" by simp
    moreover have "\<And>k. groupValues hst ki vi (r # rows) k = groupValues hst ki vi rows k"
      using True by (simp add: groupValues_Cons)
    ultimately show ?thesis
      using Cons.IH [OF _ Cons.prems(2)] by presburger
  next
    case False
    with Cons.prems obtain g1 where
      g1: "pushToGroup g0 (toStr hst (cellAt r ki)) (toNumber (cellAt r vi)) = Inr g1"
      and rest: "collectGroups hst ki vi rows g1 = Inr g"
      by (auto simp: Let_def split: sum.splits)
    note p = pushToGroup_Inr [OF g1]
    from Cons.IH [OF rest p(2) [OF Cons.prems(2)]]
    have d: "distinct (map fst g)"
      and m: "\<And>k. map_of g k =
            (case map_of g1 k of
               Some vs \<Rightarrow> Some (vs @ groupValues hst ki vi rows k)
             | None \<Rightarrow> if groupValues hst ki vi rows k = [] then None
                       else Some (groupValues hst ki vi rows k))"
      by auto
    show ?thesis
    proof (intro conjI allI)
      show "distinct (map fst g)" by (rule d)
    next
      fix k
      show "map_of g k =
            (case map_of g0 k of
               Some vs \<Rightarrow> Some (vs @ groupValues hst ki vi (r # rows) k)
             | None \<Rightarrow> if groupValues hst ki vi (r # rows) k = [] then None
                       else Some (groupValues hst ki vi (r # rows) k))"
        using False by (simp add: m p(1) groupValues_Cons split: option.splits)
    qed
  qed
qed

lemma collectGroups_Inl:
  assumes "\<forall>k\<in>fst ` set g0. k \<notin> set inheritedNames"
  shows "collectGroups hst ki vi rows g0 = Inl e \<longleftrightarrow>
         e = TypeError \<and>
         (\<exists>r\<in>set rows. \<not> isNaN (toNumber (cellAt r vi)) \<and>
                        toStr hst (cellAt r ki) \<in> set inheritedNames)"
  using assms
proof (induction rows arbitrary: g0)
  case Nil
  then show ?case by simp
next
  case (Cons r rows)
  show ?case
  proof (cases "isNaN (toNumber (cellAt r vi))")
    case True
    with Cons show ?thesis by simp
  next
    case False
    show ?thesis
    proof (cases "pushToGroup g0 (toStr hst (cellAt r ki)) (toNumber (cellAt r vi))")
      case (Inl e')
      then have "e' = TypeError" "toStr hst (cellAt r ki) \<in> set inheritedNames"
        by (simp_all add: pushToGroup_Inl)
      with Inl False show ?thesis by (auto simp: Let_def)
    next
      case (Inr g1)
      note p = pushToGroup_Inr [OF Inr]
      have notin: "toStr hst (cellAt r ki) \<notin> set inheritedNames"
      proof
        assume "toStr hst (cellAt r ki) \<in> set inheritedNames"
        from p(4) [OF this] have "toStr hst (cellAt r ki) \<in> fst ` set g0"
          by (metis map_of_eq_None_iff)
        with Cons.prems this show False
          using \<open>toStr hst (cellAt r ki) \<in> set inheritedNames\<close> by blast
      qed
      have "\<forall>k\<in>fst ` set g1. k \<notin> set inheritedNames"
        using p(3) Cons.prems notin by auto
      from Cons.IH [OF this] Inr False notin show ?thesis
        by (auto simp: Let_def)
    qed
  qed
qed

lemma objectEntries_mset: "mset (objectEntries ob) = mset ob"
  by (simp add: objectEntries_def)

lemma objectEntries_set: "set (objectEntries ob) = set ob"
  by (metis objectEntries_mset set_mset_mset)

lemma objectEntries_distinct:
  "distinct (map fst ob) \<Longrightarrow> distinct (map fst (objectEntries ob))"
proof -
  assume d: "distinct (map fst ob)"
  have "mset (map fst (objectEntries ob)) = mset (map fst ob)"
    by (simp add: objectEntries_mset)
  with d show ?thesis by (metis mset_eq_imp_distinct_iff)
qed

lemma collectGroups_keys:
  assumes "collectGroups hst ki vi rows [] = Inr g"
  shows "fst ` set g =
         (\<lambda>r. toStr hst (cellAt r ki)) ` {r \<in> set rows. \<not> isNaN (toNumber (cellAt r vi))}"
proof -
  from collectGroups_Inr [OF assms] have
    m: "\<And>k. map_of g k = (if groupValues hst ki vi rows k = [] then None
           else Some (groupValues hst ki vi rows k))"
    by simp
  have "fst ` set g = {k. map_of g k \<noteq> None}"
    by (auto simp: map_of_eq_None_iff)
  also have "\<dots> = {k. groupValues hst ki vi rows k \<noteq> []}"
    by (simp add: m)
  also have "\<dots> = (\<lambda>r. toStr hst (cellAt r ki)) ` {r \<in> set rows. \<not> isNaN (toNumber (cellAt r vi))}"
    by (auto simp: groupValues_def numericValues_def filter_empty_conv)
  finally show ?thesis .
qed

lemma collectGroups_values:
  assumes "collectGroups hst ki vi rows [] = Inr g" "(k, vs) \<in> set g"
  shows "vs = groupValues hst ki vi rows k \<and> vs \<noteq> []"
proof -
  from collectGroups_Inr [OF assms(1)] have
    d: "distinct (map fst g)" and
    m: "\<And>k. map_of g k = (if groupValues hst ki vi rows k = [] then None
           else Some (groupValues hst ki vi rows k))"
    by simp_all
  from d assms(2) have "map_of g k = Some vs" by simp
  with m [of k] show ?thesis by (auto split: if_splits)
qed


section \<open>aggregateData: the entries of a grouped result\<close>

lemma regionTable_max:
  "aggregateData sampleHost [''Region'', ''Amount''] regionTable ''amount'' ''max'' (Some ''region'') =
     Inr (Grouped \<lparr> gOperation = ''max'', gColumn = ''amount'', gGroupBy = ''region'',
            gResults = [\<lparr> eGroup = ''East'', eResult = Fin 5, eCount = 2 \<rparr>,
                        \<lparr> eGroup = ''North'', eResult = Fin 7, eCount = 1 \<rparr>] \<rparr>)"
  by (simp add: aggregateData_def regionTable_def lookup_defs group_defs num_defs
      groupResult_def aggregateSwitch_def mathMax_def numMax2_def)

text \<open>As the claim C2 is written (every distinct group value of the rows has an entry,
  a group without numeric values one with count 0) it fails: West has no entry.\<close>

theorem grouped_entries_counterexample:
  "\<exists>g. aggregateData sampleHost [''Region'', ''Amount''] regionTable ''amount'' ''max''
         (Some ''region'') = Inr (Grouped g) \<and>
       ''West'' \<in> (\<lambda>r. toStr sampleHost (cellAt r 0)) ` set regionTable \<and>
       ''West'' \<notin> eGroup ` set (gResults g)"
  unfolding regionTable_max by (simp add: regionTable_def cellAt_def)

text \<open>
  C2, amended. When the aggregated column and the group-by column resolve and
  \<open>aggregateData\<close> returns, the grouped result has exactly one entry for every group value
  that occurs in a row whose target cell is numeric, and no other entry; the count of an
  entry is the number of those rows, which is at least 1, and its result is the reduction
  of their values. A group without a numeric target value has no entry.
\<close>

theorem grouped_entries:
  assumes col: "findIndex (headerContains column) headers = Some ci"
    and gb: "groupBy \<noteq> []" "findIndex (headerContains groupBy) headers = Some gi"
    and ret: "aggregateData hst headers rows column operation (Some groupBy) = Inr res"
  shows "\<exists>g. res = Grouped g \<and> distinct (map eGroup (gResults g)) \<and>
           eGroup ` set (gResults g) =
             (\<lambda>r. toStr hst (cellAt r gi)) ` {r \<in> set rows. \<not> isNaN (toNumber (cellAt r ci))} \<and>
           (\<forall>e\<in>set (gResults g).
              eCount e = length (groupValues hst gi ci rows (eGroup e)) \<and> 0 < eCount e \<and>
              aggregateSwitch hst operation (groupValues hst gi ci rows (eGroup e)) =
                Inr (eResult e))"
proof -
  from col gb ret obtain groups results where
    cg: "collectGroups hst gi ci rows [] = Inr groups" and
    am: "arrayMap (groupResult hst operation) (objectEntries groups) = Inr results" and
    res: "res = Grouped \<lparr> gOperation = operation, gColumn = column, gGroupBy = groupBy,
                          gResults = results \<rparr>"
    by (auto simp: aggregateData_def split: sum.splits)
  note fst_mk = arrayMap_groups [OF am]
  have d: "distinct (map fst (objectEntries groups))"
    using collectGroups_Inr [OF cg] by (simp add: objectEntries_distinct)
  have keys: "eGroup ` set results =
      (\<lambda>r. toStr hst (cellAt r gi)) ` {r \<in> set rows. \<not> isNaN (toNumber (cellAt r ci))}"
  proof -
    have "eGroup ` set results = set (map eGroup results)"
      by simp
    also have "\<dots> = fst ` set groups"
      unfolding fst_mk by (simp add: objectEntries_set)
    finally show ?thesis by (simp add: collectGroups_keys [OF cg])
  qed
  have each: "eCount e = length (groupValues hst gi ci rows (eGroup e)) \<and> 0 < eCount e \<and>
              aggregateSwitch hst operation (groupValues hst gi ci rows (eGroup e)) =
                Inr (eResult e)"
    if "e \<in> set results" for e
  proof -
    from arrayMap_Inr_set [OF am that] obtain k vs where
      kv: "(k, vs) \<in> set groups" and e: "groupResult hst operation (k, vs) = Inr e"
      by (auto simp: objectEntries_set)
    from collectGroups_values [OF cg kv] groupResult_Inr [OF e] show ?thesis
      by auto
  qed
  define g where "g = \<lparr> gOperation = operation, gColumn = column, gGroupBy = groupBy,
                          gResults = results \<rparr>"
  have gr: "gResults g = results"
    by (simp add: g_def)
  have "res = Grouped g"
    by (simp add: res g_def)
  moreover have "distinct (map eGroup (gResults g))"
    unfolding gr fst_mk by (rule d)
  moreover have "eGroup ` set (gResults g) =
      (\<lambda>r. toStr hst (cellAt r gi)) ` {r \<in> set rows. \<not> isNaN (toNumber (cellAt r ci))}"
    unfolding gr by (rule keys)
  moreover have "\<forall>e\<in>set (gResults g).
      eCount e = length (groupValues hst gi ci rows (eGroup e)) \<and> 0 < eCount e \<and>
      aggregateSwitch hst operation (groupValues hst gi ci rows (eGroup e)) = Inr (eResult e)"
    unfolding gr using each by blast
  ultimately show ?thesis by blast
qed

theorem grouped_entries_witness:
  "findIndex (headerContains ''amount'') [''Region'', ''Amount''] = Some 1 \<and>
   findIndex (headerContains ''region'') [''Region'', ''Amount''] = Some 0 \<and>
   (\<exists>g. aggregateData sampleHost [''Region'', ''Amount''] regionTable ''amount'' ''max''
          (Some ''region'') = Inr (Grouped g) \<and>
        map eGroup (gResults g) = [''East'', ''North''] \<and>
        eGroup ` set (gResults g) =
          (\<lambda>r. toStr sampleHost (cellAt r 0)) `
            {r \<in> set regionTable. \<not> isNaN (toNumber (cellAt r 1))})"
proof -
  have h1: "findIndex (headerContains ''amount'') [''Region'', ''Amount''] = Some 1"
    by (simp add: lookup_defs)
  have h2: "findIndex (headerContains ''region'') [''Region'', ''Amount''] = Some 0"
    by (simp add: lookup_defs)
  have h3: "''region'' \<noteq> []" by simp
  from grouped_entries [OF h1 h3 h2 regionTable_max] h1 h2 regionTable_max
  show ?thesis by simp
qed

section \<open>createPivotTable: the group keys\<close>

text \<open>
  C6. The group keys of \<open>createPivotTable\<close> are meant to be the distinct row-field values
  of the rows with a numeric value. Two inputs where they are not: a row-field value that
  is a name every object inherits (the call raises \<open>TypeError\<close>), and a row field named
  \<open>count\<close> (the key of every record is overwritten by the count).
\<close>

theorem pivot_keys_lost:
  "createPivotTable sampleHost [''Method'', ''Calls''] [[CStr ''constructor'', CNum (Fin 5)]]
     ''method'' ''calls'' ''sum'' = Inl TypeError \<and>
   createPivotTable sampleHost [''Count'', ''Amount'']
     [[CStr ''a'', CNum (Fin 1)], [CStr ''b'', CNum (Fin 2)]] ''count'' ''amount'' ''sum'' =
     Inr \<lparr> pivotTable = [[(''count'', CNum (Fin 1)), (''sum'', CNum (Fin 1))],
                           [(''count'', CNum (Fin 1)), (''sum'', CNum (Fin 2))]],
            pRowField = ''count'', pValueField = ''amount'', pOperation = ''sum'',
            totalGroups = 2 \<rparr>"
  by (simp add: createPivotTable_def lookup_defs group_defs num_defs pivotRecord_def
      pivotSwitch_def)

lemma pivotRecord_key:
  "rowField \<noteq> operation \<Longrightarrow> rowField \<noteq> ''count'' \<Longrightarrow>
   map_of (pivotRecord rowField operation k vs) rowField = Some (CStr k)"
  by (simp add: pivotRecord_def update_conv')

text \<open>Apart from these inputs the keys are as intended: when the call returns and the
  row field is neither the operation nor \<open>count\<close>, the records carry exactly the distinct
  row-field values of the rows with a numeric value, once each.\<close>

lemma pivot_keys:
  assumes row: "findIndex (headerContains rowField) headers = Some ri"
    and val: "findIndex (headerContains valueField) headers = Some vi"
    and ret: "createPivotTable hst headers rows rowField valueField operation = Inr res"
    and names: "rowField \<noteq> operation" "rowField \<noteq> ''count''"
  shows "distinct (map (\<lambda>record. map_of record rowField) (pivotTable res)) \<and>
         (\<lambda>record. map_of record rowField) ` set (pivotTable res) =
           (\<lambda>r. Some (CStr (toStr hst (cellAt r ri)))) `
             {r \<in> set rows. \<not> isNaN (toNumber (cellAt r vi))} \<and>
         totalGroups res = length (pivotTable res)"
proof -
  define mk where "mk = (\<lambda>kv :: string \<times> jsnum list.
      pivotRecord rowField operation (fst kv) (snd kv))"
  from row val ret obtain pivot where
    cg: "collectGroups hst ri vi rows [] = Inr pivot" and
    res: "pivotTable res = map mk (objectEntries pivot)" "totalGroups res = length (pivotTable res)"
    by (auto simp: createPivotTable_def mk_def Let_def split: sum.splits)
  have key: "(\<lambda>record. map_of record rowField) \<circ> mk = (\<lambda>kv. Some (CStr (fst kv)))"
    by (auto simp: mk_def pivotRecord_key [OF names])
  have d: "distinct (map fst (objectEntries pivot))"
    using collectGroups_Inr [OF cg] by (simp add: objectEntries_distinct)
  have "map (\<lambda>record. map_of record rowField) (pivotTable res) =
        map (\<lambda>k. Some (CStr k)) (map fst (objectEntries pivot))"
    by (simp add: res(1) key comp_def) (simp add: key [unfolded comp_def fun_eq_iff, rule_format])
  moreover have "distinct (map (\<lambda>k. Some (CStr k)) (map fst (objectEntries pivot)))"
    using d by (simp add: distinct_map inj_on_def del: map_map)
  moreover have "(\<lambda>k. Some (CStr k)) ` fst ` set pivot =
      (\<lambda>r. Some (CStr (toStr hst (cellAt r ri)))) `
        {r \<in> set rows. \<not> isNaN (toNumber (cellAt r vi))}"
    by (simp add: collectGroups_keys [OF cg] image_image)
  ultimately show ?thesis
    using res(2) objectEntries_set [of pivot]
    by (metis (no_types, lifting) image_set)
qed

section \<open>Column lookup in ExcelTools\<close>

lemma findIndex_Some_iff: "(\<exists>i. findIndex P xs = Some i) \<longleftrightarrow> (\<exists>x\<in>set xs. P x)"
  using findIndex_None_iff [of P xs] by (cases "findIndex P xs") auto

text \<open>As the claim C3 is written (all four operations look the column up by the two-way
  check) it fails: the name "Qty Ordered" contains the header "Qty", so \<open>filterData\<close>
  resolves it, while \<open>aggregateData\<close>, \<open>sortData\<close> and \<open>createPivotTable\<close> raise.\<close>

theorem column_lookup_counterexample:
  "(\<exists>h\<in>set [''Qty'', ''Unit Price'']. matchesEitherWay ''Qty Ordered'' h) \<and>
   (\<exists>r. filterData sampleHost [''Qty'', ''Unit Price''] [[CNum (Fin 10), CNum (Fin 5)]]
          ''Qty Ordered'' ''>'' (CNum (Fin 1)) = Inr r) \<and>
   aggregateData sampleHost [''Qty'', ''Unit Price''] [[CNum (Fin 10), CNum (Fin 5)]]
     ''Qty Ordered'' ''sum'' None = Inl (Error ''Column \"Qty Ordered\" not found'') \<and>
   sortData sampleHost [''Qty'', ''Unit Price''] [[CNum (Fin 10), CNum (Fin 5)]]
     ''Qty Ordered'' Asc = Inl (Error ''Column \"Qty Ordered\" not found'') \<and>
   createPivotTable sampleHost [''Qty'', ''Unit Price''] [[CNum (Fin 10), CNum (Fin 5)]]
     ''Qty Ordered'' ''price'' ''sum'' = Inl (Error ''Row field \"Qty Ordered\" not found'')"
  by (simp add: filterData_def aggregateData_def sortData_def createPivotTable_def
      lookup_defs notFound_def)

text \<open>
  C3, amended. \<open>filterData\<close> looks its column up by the two-way check (the lower-cased
  header contains the lower-cased name, or the name contains the header);
  \<open>aggregateData\<close> (column and group-by column), \<open>sortData\<close> and \<open>createPivotTable\<close> (row
  field, then value field) use the one-way check (the header contains the name). Each
  raises the error that names the requested column exactly when no header matches by
  the operation's own check.
\<close>

theorem column_lookup:
  "(filterData hst headers rows column operator v = Inl (notFound ''Column'' column)
      \<longleftrightarrow> \<not> (\<exists>h\<in>set headers. matchesEitherWay column h)) \<and>
   (aggregateData hst headers rows column operation groupBy = Inl (notFound ''Column'' column)
      \<longleftrightarrow> \<not> (\<exists>h\<in>set headers. headerContains column h)) \<and>
   (sortData hst headers rows column order = Inl (notFound ''Column'' column)
      \<longleftrightarrow> \<not> (\<exists>h\<in>set headers. headerContains column h)) \<and>
   (createPivotTable hst headers rows rowField valueField operation =
        Inl (notFound ''Row field'' rowField)
      \<longleftrightarrow> \<not> (\<exists>h\<in>set headers. headerContains rowField h)) \<and>
   (createPivotTable hst headers rows rowField valueField operation =
        Inl (notFound ''Value field'' valueField)
      \<longleftrightarrow> (\<exists>h\<in>set headers. headerContains rowField h) \<and>
          \<not> (\<exists>h\<in>set headers. headerContains valueField h)) \<and>
   (aggregateData hst headers rows column operation (Some groupName) =
        Inl (notFound ''Group by column'' groupName)
      \<longleftrightarrow> (\<exists>h\<in>set headers. headerContains column h) \<and> groupName \<noteq> [] \<and>
          \<not> (\<exists>h\<in>set headers. headerContains groupName h))"
proof -
  have some: "\<exists>h\<in>set headers. P h" if "findIndex P headers = Some i" for P i
    using findIndex_Some_lt [OF that] by (metis nth_mem)
  have none: "\<not> (\<exists>h\<in>set headers. P h)" if "findIndex P headers = None" for P
    using that by (simp add: findIndex_None_iff)
  have cg: "e = TypeError" if "collectGroups hst ki vi rows [] = Inl e" for ki vi e
    using that by (simp add: collectGroups_Inl)
  have te: "TypeError \<noteq> notFound a b" "RangeError \<noteq> notFound a b" for a b
    by (simp_all add: notFound_def)
  have sw: "e = RangeError" if "aggregateSwitch hst operation vs = Inl e" for vs e
    using aggregateSwitch_Inl [OF that] by simp
  have am: "e = RangeError" if "arrayMap (groupResult hst operation) kvs = Inl e" for kvs e
    using arrayMap_Inl [OF that] groupResult_Inl by blast
  have diff: "notFound ''Group by column'' a \<noteq> notFound ''Column'' b"
    "notFound ''Value field'' a \<noteq> notFound ''Row field'' b" for a b
    by (simp_all add: notFound_def)
  have f: "filterData hst headers rows column operator v = Inl (notFound ''Column'' column)
      \<longleftrightarrow> \<not> (\<exists>h\<in>set headers. matchesEitherWay column h)"
  proof (cases "findIndex (matchesEitherWay column) headers")
    case None
    with none [OF None] show ?thesis by (simp add: filterData_def)
  next
    case (Some i)
    with some [OF Some] show ?thesis by (simp add: filterData_def Let_def)
  qed
  have a: "aggregateData hst headers rows column operation gb = Inl (notFound ''Column'' column)
      \<longleftrightarrow> \<not> (\<exists>h\<in>set headers. headerContains column h)" for gb
  proof (cases "findIndex (headerContains column) headers")
    case None
    with none [OF None] show ?thesis by (simp add: aggregateData_def)
  next
    case (Some i)
    have "aggregateData hst headers rows column operation gb \<noteq> Inl (notFound ''Column'' column)"
      using diff(1) te
      by (auto simp: aggregateData_def Some Let_def split: option.splits sum.splits
          dest!: cg sw am)
    with some [OF Some] show ?thesis by simp
  qed
  have s: "sortData hst headers rows column order = Inl (notFound ''Column'' column)
      \<longleftrightarrow> \<not> (\<exists>h\<in>set headers. headerContains column h)"
  proof (cases "findIndex (headerContains column) headers")
    case None
    with none [OF None] show ?thesis by (simp add: sortData_def)
  next
    case (Some i)
    with some [OF Some] show ?thesis by (simp add: sortData_def Let_def)
  qed
  have p: "createPivotTable hst headers rows rowField valueField operation =
        Inl (notFound ''Row field'' rowField)
      \<longleftrightarrow> \<not> (\<exists>h\<in>set headers. headerContains rowField h)"
  proof (cases "findIndex (headerContains rowField) headers")
    case None
    with none [OF None] show ?thesis by (simp add: createPivotTable_def)
  next
    case (Some i)
    have "createPivotTable hst headers rows rowField valueField operation \<noteq>
        Inl (notFound ''Row field'' rowField)"
      using diff(2) te
      by (auto simp: createPivotTable_def Some Let_def split: option.splits sum.splits dest!: cg)
    with some [OF Some] show ?thesis by simp
  qed
  have pv: "createPivotTable hst headers rows rowField valueField operation =
        Inl (notFound ''Value field'' valueField)
      \<longleftrightarrow> (\<exists>h\<in>set headers. headerContains rowField h) \<and>
          \<not> (\<exists>h\<in>set headers. headerContains valueField h)"
  proof (cases "findIndex (headerContains rowField) headers")
    case None
    with none [OF None] diff(2) [of valueField rowField] show ?thesis
      by (simp add: createPivotTable_def)
  next
    case (Some i)
    show ?thesis
    proof (cases "findIndex (headerContains valueField) headers")
      case None
      with none [OF None] some [OF Some] Some show ?thesis
        by (simp add: createPivotTable_def)
    next
      case Some2: (Some j)
      have "createPivotTable hst headers rows rowField valueField operation \<noteq>
          Inl (notFound ''Value field'' valueField)"
        using te by (auto simp: createPivotTable_def Some Some2 Let_def
            split: sum.splits dest!: cg)
      with some [OF Some2] show ?thesis by simp
    qed
  qed
  have ag: "aggregateData hst headers rows column operation (Some groupName) =
        Inl (notFound ''Group by column'' groupName)
      \<longleftrightarrow> (\<exists>h\<in>set headers. headerContains column h) \<and> groupName \<noteq> [] \<and>
          \<not> (\<exists>h\<in>set headers. headerContains groupName h)"
  proof (cases "findIndex (headerContains column) headers")
    case None
    with none [OF None] diff(1) [of groupName column] show ?thesis
      by (simp add: aggregateData_def)
  next
    case (Some i)
    show ?thesis
    proof (cases "groupName = []")
      case True
      then show ?thesis
        using te by (auto simp: aggregateData_def Some Let_def split: sum.splits dest!: sw)
    next
      case False
      show ?thesis
      proof (cases "findIndex (headerContains groupName) headers")
        case None
        with none [OF None] some [OF Some] Some False show ?thesis
          by (simp add: aggregateData_def)
      next
        case Some2: (Some j)
        have "aggregateData hst headers rows column operation (Some groupName) \<noteq>
            Inl (notFound ''Group by column'' groupName)"
          using te False by (auto simp: aggregateData_def Some Some2
              split: sum.splits dest!: cg am)
        with some [OF Some2] show ?thesis by simp
      qed
    qed
  qed
  from f a s p pv ag show ?thesis by blast
qed


theorem column_lookup_witness:
  "\<not> (\<exists>h\<in>set [''Qty'', ''Unit Price'']. headerContains ''Qty Ordered'' h) \<and>
   (\<exists>h\<in>set [''Qty'', ''Unit Price'']. matchesEitherWay ''Qty Ordered'' h) \<and>
   (\<exists>h\<in>set [''Qty'', ''Unit Price'']. headerContains ''price'' h) \<and>
   filterData sampleHost [''Qty'', ''Unit Price''] [] ''Qty Ordered'' ''='' CNull \<noteq>
     Inl (notFound ''Column'' ''Qty Ordered'') \<and>
   aggregateData sampleHost [''Qty'', ''Unit Price''] [] ''Qty Ordered'' ''sum'' None =
     Inl (notFound ''Column'' ''Qty Ordered'') \<and>
   sortData sampleHost [''Qty'', ''Unit Price''] [] ''price'' Desc \<noteq>
     Inl (notFound ''Column'' ''price'') \<and>
   createPivotTable sampleHost [''Qty'', ''Unit Price''] [] ''price'' ''Qty Ordered'' ''sum'' =
     Inl (notFound ''Value field'' ''Qty Ordered'')"
proof -
  have h1: "\<not> (\<exists>h\<in>set [''Qty'', ''Unit Price'']. headerContains ''Qty Ordered'' h)"
    by (simp add: lookup_defs)
  have h2: "\<exists>h\<in>set [''Qty'', ''Unit Price'']. matchesEitherWay ''Qty Ordered'' h"
    by (simp add: lookup_defs)
  have h3: "\<exists>h\<in>set [''Qty'', ''Unit Price'']. headerContains ''price'' h"
    by (simp add: lookup_defs)
  note a = column_lookup [of sampleHost "[''Qty'', ''Unit Price'']" "[]" "''Qty Ordered''"
      "''=''" CNull "''sum''" None Asc "''price''" "''Qty Ordered''" "''x''"]
  note b = column_lookup [of sampleHost "[''Qty'', ''Unit Price'']" "[]" "''price''"
      "''=''" CNull "''sum''" None Desc "''price''" "''Qty Ordered''" "''x''"]
  from a b h1 h2 h3 show ?thesis by blast
qed

section \<open>findBestMatch on a name that equals a header\<close>

lemmas norm_defs = normalizeColumnName_def cleanName_def replaceSpecial_def synonyms_def str_defs

lemma cleanName_Nil [simp]: "cleanName [] = []"
  by (simp add: cleanName_def replaceSpecial_def toLowerCase_def trim_def)





text \<open>An empty header is found by the exact match and then dropped by \<open>if (exactMatch)\<close>.\<close>

lemma findBestMatch_empty_header: "findBestMatch '''' [''a'', ''''] = Some ''a''"
  by (simp add: findBestMatch_def truthy_def norm_defs)



section \<open>sortData: ascending against descending\<close>

lemma insertSorted_mset: "mset (insertSorted cmp x ys) = add_mset x (mset ys)"
  by (induction ys) auto

lemma arraySort_mset: "mset (arraySort cmp xs) = mset xs"
  by (induction xs) (auto simp: arraySort_def insertSorted_mset)

lemma arraySort_set: "set (arraySort cmp xs) = set xs"
  by (metis arraySort_mset set_mset_mset)

lemma arraySort_length: "length (arraySort cmp xs) = length xs"
  by (metis arraySort_mset size_mset)

lemma insertSorted_sorted_wrt:
  assumes "transp le" "sorted_wrt le ys"
    and "\<forall>y\<in>set ys. (numLt (Fin 0) (cmp x y) \<longrightarrow> le y x) \<and> (\<not> numLt (Fin 0) (cmp x y) \<longrightarrow> le x y)"
  shows "sorted_wrt le (insertSorted cmp x ys)"
  using assms(2,3)
proof (induction ys)
  case Nil
  then show ?case by simp
next
  case (Cons y ys)
  show ?case
  proof (cases "numLt (Fin 0) (cmp x y)")
    case True
    have "set (insertSorted cmp x ys) = insert x (set ys)"
      by (metis insertSorted_mset set_mset_add_mset_insert set_mset_mset)
    with True Cons show ?thesis by auto
  next
    case False
    with Cons.prems have xy: "le x y" by simp
    have "le x z" if "z \<in> set ys" for z
      using Cons.prems(1) xy that assms(1) by (auto dest: transpD)
    with False xy Cons.prems(1) show ?thesis by auto
  qed
qed

lemma arraySort_sorted_wrt:
  assumes "transp le"
    and "\<forall>a\<in>set xs. \<forall>b\<in>set xs.
           (numLt (Fin 0) (cmp a b) \<longrightarrow> le b a) \<and> (\<not> numLt (Fin 0) (cmp a b) \<longrightarrow> le a b)"
  shows "sorted_wrt le (arraySort cmp xs)"
  using assms(2)
proof (induction xs)
  case Nil
  then show ?case by (simp add: arraySort_def)
next
  case (Cons x xs)
  have "sorted_wrt le (arraySort cmp xs)"
    using Cons by simp
  from insertSorted_sorted_wrt [OF assms(1) this, of cmp x] Cons.prems
  show ?case by (simp add: arraySort_def arraySort_set [unfolded arraySort_def])
qed

lemma compareRows_Desc: "compareRows hst ci Desc a b = compareRows hst ci Asc b a"
  by (simp add: compareRows_def Let_def)

lemma sorted_same_keys:
  fixes K :: "'a \<Rightarrow> 'k::linorder"
  assumes "sorted (map K xs)" "sorted (map K ys)" "mset xs = mset ys"
  shows "map K xs = map K ys"
proof -
  have "mset (map K xs) = mset (map K ys)"
    using assms(3) by simp
  then show ?thesis
    using assms(1,2) by (metis properties_for_sort)
qed

lemma asc_desc_keys:
  fixes K :: "row \<Rightarrow> 'k::linorder"
  assumes "\<forall>a\<in>set rows. \<forall>b\<in>set rows.
             numLt (Fin 0) (compareRows hst ci Asc a b) \<longleftrightarrow> K b < K a"
  shows "sorted (map K (arraySort (compareRows hst ci Asc) rows))"
    and "map K (arraySort (compareRows hst ci Asc) rows) =
         map K (rev (arraySort (compareRows hst ci Desc) rows))"
proof -
  let ?A = "arraySort (compareRows hst ci Asc) rows"
  let ?D = "arraySort (compareRows hst ci Desc) rows"
  have ta: "transp (\<lambda>a b. K a \<le> K b)" and td: "transp (\<lambda>a b. K b \<le> K a)"
    by (auto simp: transp_def)
  have "sorted_wrt (\<lambda>a b. K a \<le> K b) ?A"
    by (rule arraySort_sorted_wrt [OF ta]) (use assms in auto)
  then show sa: "sorted (map K ?A)"
    by (simp add: sorted_map)
  have "sorted_wrt (\<lambda>a b. K b \<le> K a) ?D"
    by (rule arraySort_sorted_wrt [OF td]) (use assms in \<open>auto simp: compareRows_Desc\<close>)
  then have "sorted_wrt (\<lambda>a b. K a \<le> K b) (rev ?D)"
    by (simp add: sorted_wrt_rev)
  then have sd: "sorted (map K (rev ?D))"
    by (simp add: sorted_map)
  have "mset ?A = mset (rev ?D)"
    by (simp add: arraySort_mset)
  from sorted_same_keys [OF sa sd this] show "map K ?A = map K (rev ?D)" .
qed

text \<open>When both cells are numeric the comparison is the order of the numbers: the
  difference of two doubles is rounded, and the rounding keeps its sign.\<close>

lemma compareRows_numeric:
  assumes "\<not> isNaN (toNumber (cellAt a ci))" "\<not> isNaN (toNumber (cellAt b ci))"
    and "validCell (cellAt a ci)" "validCell (cellAt b ci)"
  shows "numLt (Fin 0) (compareRows hst ci Asc a b) \<longleftrightarrow>
         sortKey (toNumber (cellAt b ci)) < sortKey (toNumber (cellAt a ci))"
proof -
  have "isNumber (toNumber (cellAt a ci))" "isNumber (toNumber (cellAt b ci))"
    using assms(3,4) by (simp_all add: isNumber_toNumber)
  with assms(1,2) show ?thesis
    by (cases "toNumber (cellAt a ci)"; cases "toNumber (cellAt b ci)")
       (simp_all add: compareRows_def Let_def isNaN_def numSub_def sortKey_def isNumber_def
          isDouble_diff_pos_iff)
qed

text \<open>
  C7, amended. For a table of at most 100 rows and a resolvable column on which the
  comparison function is a consistent ordering (it puts \<open>a\<close> behind \<open>b\<close> exactly when the
  sort key of \<open>b\<close> is smaller, for some linearly ordered sort key \<open>K\<close>; this holds with the
  numeric value as the key when every target cell is numeric, the number cells holding
  doubles, \<open>compareRows_numeric\<close>), the
  rows of \<open>sortData(column, "asc")\<close> are those of \<open>sortData(column, "desc")\<close> in reverse order,
  up to the order of rows with equal keys: both are permutations of the table, and
  position by position their keys agree.
\<close>

theorem sort_asc_desc:
  fixes K :: "row \<Rightarrow> 'k::linorder"
  assumes col: "findIndex (headerContains column) headers = Some ci"
    and cons: "\<forall>a\<in>set rows. \<forall>b\<in>set rows.
                 numLt (Fin 0) (compareRows hst ci Asc a b) \<longleftrightarrow> K b < K a"
    and small: "length rows \<le> 100"
  shows "\<exists>ra rd. sortData hst headers rows column Asc = Inr ra \<and>
                 sortData hst headers rows column Desc = Inr rd \<and>
                 mset (sortedRows ra) = mset rows \<and> mset (sortedRows rd) = mset rows \<and>
                 sorted (map K (sortedRows ra)) \<and>
                 map K (sortedRows ra) = map K (rev (sortedRows rd))"
  using col small asc_desc_keys [OF cons]
  by (simp add: sortData_def Let_def arraySort_length arraySort_mset)


lemma numericRows_consistent:
  "\<forall>a\<in>set numericRows. \<forall>b\<in>set numericRows.
     numLt (Fin 0) (compareRows sampleHost 0 Asc a b) \<longleftrightarrow>
     sortKey (toNumber (cellAt b 0)) < sortKey (toNumber (cellAt a 0))"
proof (intro ballI)
  fix a b
  assume "a \<in> set numericRows" "b \<in> set numericRows"
  then have "\<not> isNaN (toNumber (cellAt a 0))" "\<not> isNaN (toNumber (cellAt b 0))"
    "validCell (cellAt a 0)" "validCell (cellAt b 0)"
    by (auto simp: numericRows_def cellAt_def num_defs str_defs validCell_def isNumber_def
        isDouble_def)
  then show "numLt (Fin 0) (compareRows sampleHost 0 Asc a b) \<longleftrightarrow>
     sortKey (toNumber (cellAt b 0)) < sortKey (toNumber (cellAt a 0))"
    by (rule compareRows_numeric)
qed

lemma numericRows_sorted:
  "sortData sampleHost [''Amount''] numericRows ''amount'' Asc =
     Inr \<lparr> sortedRows = [[CNull], [CNum (Fin 3)], [CNum (Fin 3), CStr ''x''], [CStr ''10'']],
            totalRows = 4, sortBy = \<lparr> sbColumn = ''amount'', sbOrder = Asc \<rparr> \<rparr>"
  "sortData sampleHost [''Amount''] numericRows ''amount'' Desc =
     Inr \<lparr> sortedRows = [[CStr ''10''], [CNum (Fin 3)], [CNum (Fin 3), CStr ''x''], [CNull]],
            totalRows = 4, sortBy = \<lparr> sbColumn = ''amount'', sbOrder = Desc \<rparr> \<rparr>"
  by (simp_all add: sortData_def lookup_defs numericRows_def arraySort_def compareRows_def
      cellAt_def num_defs numSub_def)

theorem sort_asc_desc_witness:
  "findIndex (headerContains ''amount'') [''Amount''] = Some 0 \<and> length numericRows \<le> 100 \<and>
   (\<exists>ra rd. sortData sampleHost [''Amount''] numericRows ''amount'' Asc = Inr ra \<and>
            sortData sampleHost [''Amount''] numericRows ''amount'' Desc = Inr rd \<and>
            sortedRows ra = [[CNull], [CNum (Fin 3)], [CNum (Fin 3), CStr ''x''], [CStr ''10'']] \<and>
            sortedRows rd = [[CStr ''10''], [CNum (Fin 3)], [CNum (Fin 3), CStr ''x''], [CNull]] \<and>
            map (\<lambda>r. toNumber (cellAt r 0)) (sortedRows ra) =
              map (\<lambda>r. toNumber (cellAt r 0)) (rev (sortedRows rd)))"
proof -
  have h1: "findIndex (headerContains ''amount'') [''Amount''] = Some 0"
    by (simp add: lookup_defs)
  have h2: "length numericRows \<le> 100"
    by (simp add: numericRows_def)
  from sort_asc_desc [OF h1 numericRows_consistent h2]
  obtain ra rd where
    r: "sortData sampleHost [''Amount''] numericRows ''amount'' Asc = Inr ra"
       "sortData sampleHost [''Amount''] numericRows ''amount'' Desc = Inr rd"
    by blast
  with numericRows_sorted have
    "sortedRows ra = [[CNull], [CNum (Fin 3)], [CNum (Fin 3), CStr ''x''], [CStr ''10'']]"
    "sortedRows rd = [[CStr ''10''], [CNum (Fin 3)], [CNum (Fin 3), CStr ''x''], [CNull]]"
    by auto
  with r h1 h2 show ?thesis
    by (simp add: cellAt_def num_defs str_defs)
qed

text \<open>As the claim C7 is written (every table) it fails on a table of more than 100 rows:
  each direction keeps its own first 100 rows, so the row with the largest amount is in
  the descending result and not in the ascending one.\<close>

lemma arraySort_Cons: "arraySort cmp (x # xs) = insertSorted cmp x (arraySort cmp xs)"
  by (simp add: arraySort_def)

lemma arraySort_replicate:
  "\<not> numLt (Fin 0) (cmp x x) \<Longrightarrow> arraySort cmp (replicate n x) = replicate n x"
proof (induction n)
  case 0
  then show ?case by (simp add: arraySort_def)
next
  case (Suc n)
  then have "arraySort cmp (replicate (Suc n) x) = insertSorted cmp x (replicate n x)"
    by (simp add: arraySort_Cons)
  with Suc.prems show ?case by (cases n) simp_all
qed

lemma insertSorted_behind:
  "numLt (Fin 0) (cmp y x) \<Longrightarrow> insertSorted cmp y (replicate n x) = replicate n x @ [y]"
  by (induction n) simp_all

lemma insertSorted_front:
  "\<not> numLt (Fin 0) (cmp y x) \<Longrightarrow> insertSorted cmp y (replicate n x) = y # replicate n x"
  by (cases n) simp_all

lemma rows101_sorted:
  "sortData sampleHost [''Amount''] rows101 ''amount'' Asc =
     Inr \<lparr> sortedRows = replicate 100 [CNum (Fin 1)], totalRows = 101,
            sortBy = \<lparr> sbColumn = ''amount'', sbOrder = Asc \<rparr> \<rparr>"
  "sortData sampleHost [''Amount''] rows101 ''amount'' Desc =
     Inr \<lparr> sortedRows = [CNum (Fin 2)] # replicate 99 [CNum (Fin 1)], totalRows = 101,
            sortBy = \<lparr> sbColumn = ''amount'', sbOrder = Desc \<rparr> \<rparr>"
proof -
  have c: "compareRows sampleHost 0 order [CNum (Fin 1)] [CNum (Fin 1)] = Fin 0"
    "compareRows sampleHost 0 Asc [CNum (Fin 2)] [CNum (Fin 1)] = Fin 1"
    "compareRows sampleHost 0 Desc [CNum (Fin 2)] [CNum (Fin 1)] = Fin (- 1)" for order
    by (simp_all add: compareRows_def cellAt_def isNaN_def numSub_def roundDouble_int)
  have "arraySort (compareRows sampleHost 0 Asc) rows101 =
          insertSorted (compareRows sampleHost 0 Asc) [CNum (Fin 2)] (replicate 100 [CNum (Fin 1)])"
    by (simp add: rows101_def arraySort_Cons arraySort_replicate c)
  then have a: "arraySort (compareRows sampleHost 0 Asc) rows101 =
      replicate 100 [CNum (Fin 1)] @ [[CNum (Fin 2)]]"
    by (simp add: insertSorted_behind c)
  have "arraySort (compareRows sampleHost 0 Desc) rows101 =
          insertSorted (compareRows sampleHost 0 Desc) [CNum (Fin 2)] (replicate 100 [CNum (Fin 1)])"
    by (simp add: rows101_def arraySort_Cons arraySort_replicate c)
  then have d: "arraySort (compareRows sampleHost 0 Desc) rows101 =
      [CNum (Fin 2)] # replicate 100 [CNum (Fin 1)]"
    by (simp add: insertSorted_front c)
  show "sortData sampleHost [''Amount''] rows101 ''amount'' Asc =
     Inr \<lparr> sortedRows = replicate 100 [CNum (Fin 1)], totalRows = 101,
            sortBy = \<lparr> sbColumn = ''amount'', sbOrder = Asc \<rparr> \<rparr>"
    by (simp add: sortData_def lookup_defs a)
  show "sortData sampleHost [''Amount''] rows101 ''amount'' Desc =
     Inr \<lparr> sortedRows = [CNum (Fin 2)] # replicate 99 [CNum (Fin 1)], totalRows = 101,
            sortBy = \<lparr> sbColumn = ''amount'', sbOrder = Desc \<rparr> \<rparr>"
    by (simp add: sortData_def lookup_defs d)
qed

theorem sort_asc_desc_counterexample:
  "\<exists>ra rd. sortData sampleHost [''Amount''] rows101 ''amount'' Asc = Inr ra \<and>
           sortData sampleHost [''Amount''] rows101 ''amount'' Desc = Inr rd \<and>
           [CNum (Fin 2)] \<in> set (sortedRows rd) \<and> [CNum (Fin 2)] \<notin> set (sortedRows ra) \<and>
           mset (sortedRows ra) \<noteq> mset (rev (sortedRows rd))"
proof -
  have "[CNum (Fin 2)] \<in># mset (rev ([CNum (Fin 2)] # replicate 99 [CNum (Fin 1)]))"
    by simp
  moreover have "[CNum (Fin 2)] \<notin># mset (replicate 100 [CNum (Fin 1)])"
    by simp
  ultimately have "mset (replicate 100 [CNum (Fin 1)]) \<noteq>
      mset (rev ([CNum (Fin 2)] # replicate 99 [CNum (Fin 1)]))"
    by metis
  then show ?thesis
    unfolding rows101_sorted by simp
qed

section \<open>A null cell is the number 0\<close>

lemma numericValues_append:
  "numericValues ci (xs @ ys) = numericValues ci xs @ numericValues ci ys"
  by (simp add: numericValues_def)

lemma numericValues_Cons:
  "numericValues ci (r # rs) =
     (if isNaN (toNumber (cellAt r ci)) then numericValues ci rs
      else toNumber (cellAt r ci) # numericValues ci rs)"
  by (simp add: numericValues_def)

text \<open>A sum that has begun is a double, so adding 0 leaves it as it is.\<close>

lemma sum_with_zero:
  "foldl numAdd (Fin 0) (xs @ Fin 0 # ys) = foldl numAdd (Fin 0) (xs @ ys)"
proof -
  have "isNumber (foldl numAdd (Fin 0) xs)"
    by (rule isNumber_foldl_numAdd) (simp add: isNumber_def)
  then show ?thesis by (simp add: numAdd_zero)
qed

lemma foldl_min_nonneg:
  assumes "\<not> isNaN a" "\<not> numLt a (Fin 0)" "\<forall>v\<in>set vs. \<not> isNaN v \<and> \<not> numLt v (Fin 0)"
  shows "\<not> isNaN (foldl numMin2 a vs) \<and> \<not> numLt (foldl numMin2 a vs) (Fin 0)"
  using assms by (induction vs arbitrary: a) (auto simp: numMin2_def)

lemma numMin2_zero:
  "\<not> isNaN a \<Longrightarrow> \<not> numLt a (Fin 0) \<Longrightarrow> numMin2 a (Fin 0) = Fin 0"
  by (cases a) (auto simp: numMin2_def isNaN_def)

lemma foldl_min_zero:
  "\<forall>v\<in>set vs. \<not> isNaN v \<and> \<not> numLt v (Fin 0) \<Longrightarrow> foldl numMin2 (Fin 0) vs = Fin 0"
proof (induction vs)
  case Nil
  then show ?case by simp
next
  case (Cons v vs)
  then have "numMin2 (Fin 0) v = Fin 0"
    by (cases v) (auto simp: numMin2_def isNaN_def)
  with Cons show ?case by simp
qed

lemma min_with_zero:
  assumes "\<forall>v\<in>set (xs @ ys). \<not> isNaN v \<and> \<not> numLt v (Fin 0)"
    and "length (xs @ Fin 0 # ys) \<le> maxArguments hst"
  shows "mathMin hst (xs @ Fin 0 # ys) = Inr (Fin 0)"
proof -
  have "\<not> isNaN (foldl numMin2 PInf xs) \<and> \<not> numLt (foldl numMin2 PInf xs) (Fin 0)"
    using assms(1) by (intro foldl_min_nonneg) (auto simp: isNaN_def)
  then have "numMin2 (foldl numMin2 PInf xs) (Fin 0) = Fin 0"
    by (simp add: numMin2_zero)
  then show ?thesis
    using assms by (simp add: mathMin_def foldl_min_zero)
qed

text \<open>
  \<open>Number(null)\<close> is 0 and not \<open>NaN\<close>, so a row whose target cell is \<open>null\<close> passes the
  guard \<open>!isNaN(value)\<close>: the values of the table, and of the row's group, hold a 0 at the
  row's position.
\<close>

lemma null_row_values:
  assumes "cellAt r ci = CNull"
  shows "numericValues ci (rs1 @ r # rs2) = numericValues ci rs1 @ Fin 0 # numericValues ci rs2"
    and "groupValues hst gi ci (rs1 @ r # rs2) (toStr hst (cellAt r gi)) =
         groupValues hst gi ci rs1 (toStr hst (cellAt r gi)) @ Fin 0 #
         groupValues hst gi ci rs2 (toStr hst (cellAt r gi))"
  by (simp_all add: numericValues_append numericValues_Cons groupValues_append
      groupValues_Cons assms isNaN_def)

text \<open>Without grouping the call reduces these values whenever the reduction returns.\<close>

lemma null_row_simple:
  assumes "cellAt r ci = CNull" "findIndex (headerContains column) headers = Some ci"
    and "aggregateSwitch hst operation (numericValues ci rs1 @ Fin 0 # numericValues ci rs2) =
         Inr result"
  shows "aggregateData hst headers (rs1 @ r # rs2) column operation None =
          Inr (Simple \<lparr> sOperation = operation, sColumn = column, sResult = result,
                 sCount = Suc (length (numericValues ci rs1) + length (numericValues ci rs2)) \<rparr>)"
  using assms(2,3) by (simp add: aggregateData_def null_row_values(1) [OF assms(1)])

text \<open>With grouping, and in a pivot table, the row is in its group when the call
  returns.\<close>

lemma null_row_grouped:
  assumes null: "cellAt r ci = CNull"
    and col: "findIndex (headerContains column) headers = Some ci"
    and gb: "groupName \<noteq> []" "findIndex (headerContains groupName) headers = Some gi"
    and ret: "aggregateData hst headers (rs1 @ r # rs2) column operation (Some groupName) = Inr res"
  shows "\<exists>g e. res = Grouped g \<and> e \<in> set (gResults g) \<and> eGroup e = toStr hst (cellAt r gi) \<and>
           aggregateSwitch hst operation
             (groupValues hst gi ci rs1 (toStr hst (cellAt r gi)) @ Fin 0 #
              groupValues hst gi ci rs2 (toStr hst (cellAt r gi))) = Inr (eResult e) \<and>
           eCount e = Suc (length (groupValues hst gi ci rs1 (toStr hst (cellAt r gi))) +
                           length (groupValues hst gi ci rs2 (toStr hst (cellAt r gi))))"
proof -
  let ?k = "toStr hst (cellAt r gi)"
  let ?vs = "groupValues hst gi ci rs1 ?k @ Fin 0 # groupValues hst gi ci rs2 ?k"
  from col gb ret obtain groups results where
    cg: "collectGroups hst gi ci (rs1 @ r # rs2) [] = Inr groups" and
    am: "arrayMap (groupResult hst operation) (objectEntries groups) = Inr results" and
    res: "res = Grouped \<lparr> gOperation = operation, gColumn = column, gGroupBy = groupName,
                          gResults = results \<rparr>"
    by (auto simp: aggregateData_def split: sum.splits)
  from collectGroups_Inr [OF cg] null_row_values(2) [OF null] have "map_of groups ?k = Some ?vs"
    by simp
  then have "(?k, ?vs) \<in> set (objectEntries groups)"
    by (simp add: objectEntries_set map_of_SomeD)
  from arrayMap_Inr_mem [OF am this] obtain e where
    e: "e \<in> set results" "groupResult hst operation (?k, ?vs) = Inr e"
    by blast
  from groupResult_Inr [OF e(2)] e(1) show ?thesis
    unfolding res by auto
qed

lemma null_row_pivot:
  assumes null: "cellAt r ci = CNull"
    and val: "findIndex (headerContains valueField) headers = Some ci"
    and row: "findIndex (headerContains rowField) headers = Some gi"
    and ret: "createPivotTable hst headers (rs1 @ r # rs2) rowField valueField operation = Inr pres"
  shows "pivotRecord rowField operation (toStr hst (cellAt r gi))
          (groupValues hst gi ci rs1 (toStr hst (cellAt r gi)) @ Fin 0 #
           groupValues hst gi ci rs2 (toStr hst (cellAt r gi)))
        \<in> set (pivotTable pres)"
proof -
  let ?k = "toStr hst (cellAt r gi)"
  let ?vs = "groupValues hst gi ci rs1 ?k @ Fin 0 # groupValues hst gi ci rs2 ?k"
  from val row ret obtain pivot where
    cg: "collectGroups hst gi ci (rs1 @ r # rs2) [] = Inr pivot" and
    res: "pivotTable pres = map (\<lambda>kv. pivotRecord rowField operation (fst kv) (snd kv))
            (objectEntries pivot)"
    by (auto simp: createPivotTable_def Let_def split: sum.splits)
  from collectGroups_Inr [OF cg] null_row_values(2) [OF null] have "map_of pivot ?k = Some ?vs"
    by simp
  then have "(?k, ?vs) \<in> set (objectEntries pivot)"
    by (simp add: objectEntries_set map_of_SomeD)
  then show ?thesis unfolding res by force
qed

text \<open>A 0 among the values is counted, adds nothing to the sum, lowers the average
  through the count, and is the minimum when no other value is below 0.\<close>

lemma reductions_with_zero:
  "aggregateSwitch hst ''count'' (xs @ Fin 0 # ys) = Inr (ofNat (Suc (length (xs @ ys))))"
  "aggregateSwitch hst ''sum'' (xs @ Fin 0 # ys) = aggregateSwitch hst ''sum'' (xs @ ys)"
  "aggregateSwitch hst ''avg'' (xs @ Fin 0 # ys) =
     Inr (numDiv (foldl numAdd (Fin 0) (xs @ ys)) (ofNat (Suc (length (xs @ ys)))))"
  "pivotSwitch ''count'' (xs @ Fin 0 # ys) = ofNat (Suc (length (xs @ ys)))"
  "pivotSwitch ''sum'' (xs @ Fin 0 # ys) = pivotSwitch ''sum'' (xs @ ys)"
  "pivotSwitch ''avg'' (xs @ Fin 0 # ys) =
     numDiv (pivotSwitch ''sum'' (xs @ ys)) (ofNat (Suc (length (xs @ ys))))"
  unfolding aggregateSwitch_def pivotSwitch_def sum_with_zero by simp_all

lemma min_zero_row:
  assumes "\<forall>v\<in>set (xs @ ys). \<not> isNaN v \<and> \<not> numLt v (Fin 0)"
    and "length (xs @ Fin 0 # ys) \<le> maxArguments hst"
  shows "aggregateSwitch hst ''min'' (xs @ Fin 0 # ys) = Inr (Fin 0)"
  using min_with_zero [OF assms] by (simp add: aggregateSwitch_def)

text \<open>A cell that coerces to \<open>NaN\<close>, such as \<open>undefined\<close>, adds no value.\<close>

lemma nan_row_excluded:
  assumes "isNaN (toNumber (cellAt r ci))"
  shows "numericValues ci (rs1 @ r # rs2) = numericValues ci (rs1 @ rs2)"
    and "groupValues hst gi ci (rs1 @ r # rs2) k = groupValues hst gi ci (rs1 @ rs2) k"
  using assms
  by (simp_all add: numericValues_append numericValues_Cons groupValues_append groupValues_Cons)

text \<open>On a table with more numeric values than a call takes arguments, \<open>min\<close> and \<open>max\<close>
  raise \<open>RangeError\<close>, whatever the values are.\<close>

lemma min_RangeError:
  assumes "findIndex (headerContains column) headers = Some ci"
    and "maxArguments hst < length (numericValues ci rows)"
  shows "aggregateData hst headers rows column ''min'' None = Inl RangeError"
    and "aggregateData hst headers rows column ''max'' None = Inl RangeError"
  using assms by (simp_all add: aggregateData_def aggregateSwitch_def mathMin_def mathMax_def)

text \<open>
  C10. A row whose target cell is \<open>null\<close> is meant to be included by \<open>aggregateData\<close> and
  \<open>createPivotTable\<close> as the number 0, since \<open>Number(null)\<close> is 0 and not \<open>NaN\<close>. Where
  the calls return it is included (\<open>null_row_simple\<close>, \<open>null_row_grouped\<close>,
  \<open>null_row_pivot\<close>). But the groups are kept in a plain object: when the group value of
  the row is a name that every object inherits, such as \<open>constructor\<close>, the grouped
  \<open>aggregateData\<close> and \<open>createPivotTable\<close> raise \<open>TypeError\<close>, and the row is in no
  result. The same row under the group value \<open>render\<close> is counted, with the sum 0; and
  without grouping the row beside an amount of 4 gives the count 2, the average 2 and the
  minimum 0.
\<close>

theorem null_row_lost:
  "toNumber (cellAt [CStr ''constructor'', CNull] 1) = Fin 0 \<and>
   aggregateData sampleHost [''Method'', ''Calls''] [[CStr ''constructor'', CNull]]
     ''calls'' ''count'' (Some ''method'') = Inl TypeError \<and>
   createPivotTable sampleHost [''Method'', ''Calls''] [[CStr ''constructor'', CNull]]
     ''method'' ''calls'' ''sum'' = Inl TypeError \<and>
   aggregateData sampleHost [''Method'', ''Calls''] [[CStr ''render'', CNull]]
     ''calls'' ''count'' (Some ''method'') =
     Inr (Grouped \<lparr> gOperation = ''count'', gColumn = ''calls'', gGroupBy = ''method'',
            gResults = [\<lparr> eGroup = ''render'', eResult = Fin 1, eCount = 1 \<rparr>] \<rparr>) \<and>
   createPivotTable sampleHost [''Method'', ''Calls''] [[CStr ''render'', CNull]]
     ''method'' ''calls'' ''sum'' =
     Inr \<lparr> pivotTable = [[(''method'', CStr ''render''), (''sum'', CNum (Fin 0)),
                            (''count'', CNum (Fin 1))]],
            pRowField = ''method'', pValueField = ''calls'', pOperation = ''sum'',
            totalGroups = 1 \<rparr> \<and>
   aggregateData sampleHost [''Method'', ''Calls'']
     [[CStr ''render'', CNum (Fin 4)], [CStr ''render'', CNull]] ''calls'' ''count'' None =
     Inr (Simple \<lparr> sOperation = ''count'', sColumn = ''calls'', sResult = Fin 2, sCount = 2 \<rparr>) \<and>
   aggregateData sampleHost [''Method'', ''Calls'']
     [[CStr ''render'', CNum (Fin 4)], [CStr ''render'', CNull]] ''calls'' ''avg'' None =
     Inr (Simple \<lparr> sOperation = ''avg'', sColumn = ''calls'', sResult = Fin 2, sCount = 2 \<rparr>) \<and>
   aggregateData sampleHost [''Method'', ''Calls'']
     [[CStr ''render'', CNum (Fin 4)], [CStr ''render'', CNull]] ''calls'' ''min'' None =
     Inr (Simple \<lparr> sOperation = ''min'', sColumn = ''calls'', sResult = Fin 0, sCount = 2 \<rparr>)"
  by (simp add: aggregateData_def createPivotTable_def lookup_defs group_defs num_defs
      groupResult_def aggregateSwitch_def pivotRecord_def pivotSwitch_def numericValues_def
      mathMin_def numMin2_def)

section \<open>aggregateData: the sum of the group sums\<close>

lemma roundingTable_sums:
  "aggregateData sampleHost [''Key'', ''Amount''] roundingTable ''amount'' ''sum'' None =
     Inr (Simple \<lparr> sOperation = ''sum'', sColumn = ''amount'', sResult = Fin 0, sCount = 3 \<rparr>)"
  "aggregateData sampleHost [''Key'', ''Amount''] roundingTable ''amount'' ''sum'' (Some ''key'') =
     Inr (Grouped \<lparr> gOperation = ''sum'', gColumn = ''amount'', gGroupBy = ''key'',
            gResults = [\<lparr> eGroup = ''a'', eResult = Fin 0, eCount = 2 \<rparr>,
                        \<lparr> eGroup = ''b'', eResult = Fin 1, eCount = 1 \<rparr>] \<rparr>)"
  by (simp_all add: aggregateData_def roundingTable_def lookup_defs group_defs num_defs
      numericValues_def groupResult_def aggregateSwitch_def round_1e16 round_1e16_plus_1)

text \<open>
  As the claim C5 is written (every table whose target cells are all numeric) it fails.
  The program adds doubles, every addition rounds, and the two sides add the same values
  in different orders. With the amounts \<open>10\<^sup>1\<^sup>6\<close>, 1 and \<open>-10\<^sup>1\<^sup>6\<close>, all of them doubles, the
  sum of the table is 0, since \<open>10\<^sup>1\<^sup>6 + 1\<close> rounds to \<open>10\<^sup>1\<^sup>6\<close>, while the sums of the two
  groups, 0 and 1, add up to 1.
\<close>

theorem sum_over_groups_counterexample:
  "list_all (\<lambda>r. validCell (cellAt r 1) \<and> \<not> isNaN (toNumber (cellAt r 1))) roundingTable \<and>
   aggregateData sampleHost [''Key'', ''Amount''] roundingTable ''amount'' ''sum'' None =
     Inr (Simple \<lparr> sOperation = ''sum'', sColumn = ''amount'', sResult = Fin 0, sCount = 3 \<rparr>) \<and>
   aggregateData sampleHost [''Key'', ''Amount''] roundingTable ''amount'' ''sum'' (Some ''key'') =
     Inr (Grouped \<lparr> gOperation = ''sum'', gColumn = ''amount'', gGroupBy = ''key'',
            gResults = [\<lparr> eGroup = ''a'', eResult = Fin 0, eCount = 2 \<rparr>,
                        \<lparr> eGroup = ''b'', eResult = Fin 1, eCount = 1 \<rparr>] \<rparr>) \<and>
   foldl numAdd (Fin 0) [Fin 0, Fin 1] = Fin 1"
  unfolding roundingTable_sums
  by (simp add: roundingTable_def cellAt_def validCell_def isNumber_def isDouble_def isNaN_def
      round_1e16 roundDouble_minus roundDouble_int)

lemma finVal_Fin [simp]: "finVal (Fin q) = q"
  by (simp add: finVal_def)

lemma isInteger_cases: "isInteger v \<Longrightarrow> \<exists>q. v = Fin q \<and> q \<in> \<int>"
proof (cases v)
  case (Fin q)
  assume "isInteger v"
  with Fin have "of_int \<lfloor>q\<rfloor> = q" by (simp add: isInteger_def)
  then have "q \<in> \<int>" by (metis Ints_of_int)
  with Fin show ?thesis by simp
qed (simp_all add: isInteger_def)

lemma isInteger_Ints: "q \<in> \<int> \<Longrightarrow> isInteger (Fin q)"
  by (auto simp: isInteger_def elim: Ints_cases)

lemma safeIntegers_Fin: "safeIntegers vs \<Longrightarrow> v \<in> set vs \<Longrightarrow> \<exists>q. v = Fin q"
  using isInteger_cases [of v] by (auto simp: safeIntegers_def list_all_iff)

lemma roundDouble_Ints: "r \<in> \<int> \<Longrightarrow> \<bar>r\<bar> \<le> 2 ^ 53 \<Longrightarrow> roundDouble r = Fin r"
  by (rule roundDouble_int) (auto elim: Ints_cases)

text \<open>On integers whose absolute values, with that of the start value, add up to at most
  \<open>2\<^sup>5\<^sup>3\<close>, no addition of the fold rounds.\<close>

lemma foldl_numAdd_exact:
  assumes "list_all isInteger vs" "a \<in> \<int>"
    and "\<bar>a\<bar> + sum_list (map (\<lambda>v. \<bar>finVal v\<bar>) vs) \<le> 2 ^ 53"
  shows "foldl numAdd (Fin a) vs = Fin (a + sum_list (map finVal vs))"
  using assms
proof (induction vs arbitrary: a)
  case Nil
  then show ?case by simp
next
  case (Cons v vs)
  from Cons.prems(1) isInteger_cases [of v] obtain q where v: "v = Fin q" and q: "q \<in> \<int>"
    by auto
  have nn: "0 \<le> sum_list (map (\<lambda>v. \<bar>finVal v\<bar>) vs)"
    by (rule sum_list_nonneg) auto
  have aq: "a + q \<in> \<int>"
    using Cons.prems(2) q by (rule Ints_add)
  have b: "\<bar>a + q\<bar> + sum_list (map (\<lambda>v. \<bar>finVal v\<bar>) vs) \<le> 2 ^ 53"
    using Cons.prems(3) abs_triangle_ineq [of a q] by (simp add: v)
  with nn have "\<bar>a + q\<bar> \<le> 2 ^ 53"
    by linarith
  with aq have "numAdd (Fin a) v = Fin (a + q)"
    by (simp add: v roundDouble_Ints)
  then have "foldl numAdd (Fin a) (v # vs) = foldl numAdd (Fin (a + q)) vs"
    by simp
  also have "\<dots> = Fin (a + q + sum_list (map finVal vs))"
    using Cons.prems(1) aq b by (intro Cons.IH) simp_all
  finally show ?case by (simp add: v add.assoc)
qed

lemma abs_total_le: "\<bar>sum_list (map finVal vs)\<bar> \<le> sum_list (map (\<lambda>v. \<bar>finVal v\<bar>) vs)"
  using sum_list_abs [of "map finVal vs"] by (simp add: comp_def)

lemma total_Ints: "list_all isInteger vs \<Longrightarrow> sum_list (map finVal vs) \<in> \<int>"
proof (induction vs)
  case Nil
  then show ?case by simp
next
  case (Cons v vs)
  from Cons.prems isInteger_cases [of v] obtain q where "v = Fin q" "q \<in> \<int>"
    by auto
  with Cons show ?case by simp
qed

lemma elem_le_sum_list:
  fixes xs :: "rat list"
  assumes "\<forall>y\<in>set xs. 0 \<le> y" "x \<in> set xs"
  shows "x \<le> sum_list xs"
  using assms
proof (induction xs)
  case Nil
  then show ?case by simp
next
  case (Cons y ys)
  have nn: "0 \<le> sum_list ys"
    using Cons.prems(1) by (intro sum_list_nonneg) simp
  show ?case
  proof (cases "x = y")
    case True
    with nn show ?thesis by simp
  next
    case False
    with Cons have "x \<le> sum_list ys" by simp
    moreover have "0 \<le> y" using Cons.prems(1) by simp
    ultimately show ?thesis by simp
  qed
qed

text \<open>Grouping moves the values into the groups and loses none: a total over the
  groups is the total over the table.\<close>

lemma update_total:
  fixes F :: "'v \<Rightarrow> rat"
  shows "sum_list (map (\<lambda>kv. F (snd kv)) (AList.update k v' g)) =
         sum_list (map (\<lambda>kv. F (snd kv)) g) -
           (case map_of g k of None \<Rightarrow> 0 | Some v \<Rightarrow> F v) + F v'"
  by (induction g) auto

lemma pushToGroup_total:
  fixes f :: "jsnum \<Rightarrow> rat"
  assumes "pushToGroup g0 k v = Inr g1"
  shows "sum_list (map (\<lambda>kv. sum_list (map f (snd kv))) g1) =
         sum_list (map (\<lambda>kv. sum_list (map f (snd kv))) g0) + f v"
proof (cases "map_of g0 k")
  case None
  with assms have "g1 = AList.update k [v] g0"
    by (simp add: pushToGroup_def split: if_splits)
  then show ?thesis
    using update_total [of "\<lambda>vs. sum_list (map f vs)" k "[v]" g0] None by simp
next
  case (Some vs)
  with assms have "g1 = AList.update k (vs @ [v]) g0"
    by (simp add: pushToGroup_def)
  then show ?thesis
    using update_total [of "\<lambda>vs. sum_list (map f vs)" k "vs @ [v]" g0] Some by simp
qed

lemma collectGroups_total:
  fixes f :: "jsnum \<Rightarrow> rat"
  assumes "collectGroups hst ki vi rows g0 = Inr g"
  shows "sum_list (map (\<lambda>kv. sum_list (map f (snd kv))) g) =
         sum_list (map (\<lambda>kv. sum_list (map f (snd kv))) g0) +
         sum_list (map f (numericValues vi rows))"
  using assms
proof (induction rows arbitrary: g0)
  case Nil
  then show ?case by (simp add: numericValues_def)
next
  case (Cons r rows)
  show ?case
  proof (cases "isNaN (toNumber (cellAt r vi))")
    case True
    with Cons show ?thesis by (simp add: numericValues_Cons)
  next
    case False
    with Cons.prems obtain g1 where
      g1: "pushToGroup g0 (toStr hst (cellAt r ki)) (toNumber (cellAt r vi)) = Inr g1"
      and rest: "collectGroups hst ki vi rows g1 = Inr g"
      by (auto simp: Let_def split: sum.splits)
    from Cons.IH [OF rest] pushToGroup_total [OF g1, of f] False show ?thesis
      by (simp add: numericValues_Cons)
  qed
qed

lemma objectEntries_total:
  fixes F :: "string \<times> 'v \<Rightarrow> rat"
  shows "sum_list (map F (objectEntries ob)) = sum_list (map F ob)"
proof -
  have "mset (map F (objectEntries ob)) = mset (map F ob)"
    by (simp add: objectEntries_mset)
  then show ?thesis
    by (metis sum_mset_sum_list)
qed

lemma integerTable_grouped:
  "aggregateData sampleHost [''Region'', ''Amount''] integerTable ''amount'' ''sum''
     (Some ''region'') =
     Inr (Grouped \<lparr> gOperation = ''sum'', gColumn = ''amount'', gGroupBy = ''region'',
            gResults = [\<lparr> eGroup = ''East'', eResult = Fin 5, eCount = 2 \<rparr>,
                        \<lparr> eGroup = ''West'', eResult = Fin 19, eCount = 2 \<rparr>] \<rparr>)"
  by (simp add: aggregateData_def integerTable_def lookup_defs group_defs num_defs str_defs
      groupResult_def aggregateSwitch_def)

text \<open>
  C5, amended. When every target cell coerces to an integer and the absolute values of
  these integers add up to at most \<open>2\<^sup>5\<^sup>3\<close>, so that no addition rounds, the group-by name
  is not empty, both columns resolve and the grouped call returns, the sum without
  grouping is the sum of the sums of the groups, and it counts every row.
\<close>

theorem sum_over_groups:
  assumes col: "findIndex (headerContains column) headers = Some ci"
    and gb: "groupName \<noteq> []" "findIndex (headerContains groupName) headers = Some gi"
    and safe: "safeIntegers (map (\<lambda>r. toNumber (cellAt r ci)) rows)"
    and ret: "aggregateData hst headers rows column ''sum'' (Some groupName) = Inr (Grouped g)"
  shows "aggregateData hst headers rows column ''sum'' None =
           Inr (Simple \<lparr> sOperation = ''sum'', sColumn = column,
                  sResult = foldl numAdd (Fin 0) (map eResult (gResults g)),
                  sCount = length rows \<rparr>)"
proof -
  let ?total = "\<lambda>vs. sum_list (map finVal vs)"
  let ?abs = "\<lambda>vs. sum_list (map (\<lambda>v. \<bar>finVal v\<bar>) vs)"
  let ?vals = "numericValues ci rows"
  have fin: "\<exists>q. toNumber (cellAt r ci) = Fin q" if "r \<in> set rows" for r
    using safeIntegers_Fin [OF safe, of "toNumber (cellAt r ci)"] that by simp
  have "\<not> isNaN (toNumber (cellAt r ci))" if "r \<in> set rows" for r
    using fin [OF that] by (auto simp: isNaN_def)
  then have nv: "?vals = map (\<lambda>r. toNumber (cellAt r ci)) rows"
    by (simp add: numericValues_def filter_id_conv)
  have ints: "list_all isInteger ?vals" and bound: "?abs ?vals \<le> 2 ^ 53"
    using safe unfolding nv by (simp_all add: safeIntegers_def)
  have all: "foldl numAdd (Fin 0) ?vals = Fin (?total ?vals)"
    using foldl_numAdd_exact [OF ints, of 0] bound by simp
  from col gb ret obtain groups where
    cg: "collectGroups hst gi ci rows [] = Inr groups" and
    am: "arrayMap (groupResult hst ''sum'') (objectEntries groups) = Inr (gResults g)"
    by (auto simp: aggregateData_def split: sum.splits)
  have "arrayMap (groupResult hst ''sum'') (objectEntries groups) =
      Inr (map (\<lambda>kv. \<lparr> eGroup = fst kv, eResult = foldl numAdd (Fin 0) (snd kv),
                        eCount = length (snd kv) \<rparr>) (objectEntries groups))"
    by (rule arrayMap_map) (simp add: groupResult_def aggregateSwitch_def)
  with am have res: "gResults g =
      map (\<lambda>kv. \<lparr> eGroup = fst kv, eResult = foldl numAdd (Fin 0) (snd kv),
                   eCount = length (snd kv) \<rparr>) (objectEntries groups)"
    by simp
  have absTotal: "sum_list (map (\<lambda>kv. ?abs (snd kv)) groups) = ?abs ?vals"
    using collectGroups_total [OF cg, of "\<lambda>v. \<bar>finVal v\<bar>"] by simp
  have total: "sum_list (map (\<lambda>kv. ?total (snd kv)) groups) = ?total ?vals"
    using collectGroups_total [OF cg, of finVal] by simp
  have grp: "list_all isInteger vs \<and> ?abs vs \<le> 2 ^ 53" if "(k, vs) \<in> set groups" for k vs
  proof -
    from collectGroups_values [OF cg that] have "set vs \<subseteq> set ?vals"
      by (auto simp: groupValues_def numericValues_def)
    with ints have "list_all isInteger vs"
      by (auto simp: list_all_iff)
    moreover have "?abs vs \<le> sum_list (map (\<lambda>kv. ?abs (snd kv)) groups)"
    proof (rule elem_le_sum_list)
      show "\<forall>y\<in>set (map (\<lambda>kv. ?abs (snd kv)) groups). 0 \<le> y"
        by (auto intro!: sum_list_nonneg)
      show "?abs vs \<in> set (map (\<lambda>kv. ?abs (snd kv)) groups)"
        using that by force
    qed
    ultimately show ?thesis
      using absTotal bound by simp
  qed
  have each: "foldl numAdd (Fin 0) vs = Fin (?total vs)" if "(k, vs) \<in> set groups" for k vs
    using foldl_numAdd_exact [of vs 0] grp [OF that] by simp
  define groupSums where "groupSums = map (\<lambda>kv. Fin (?total (snd kv))) (objectEntries groups)"
  have results: "map eResult (gResults g) = groupSums"
    using each by (auto simp: res groupSums_def objectEntries_set)
  have sums_int: "list_all isInteger groupSums"
    using grp by (auto simp: groupSums_def list_all_iff objectEntries_set
        intro!: isInteger_Ints total_Ints)
  have sums_val: "?total groupSums = ?total ?vals"
    unfolding groupSums_def using objectEntries_total [of "\<lambda>kv. ?total (snd kv)" groups] total
    by (simp add: comp_def)
  have "?abs groupSums = sum_list (map (\<lambda>kv. \<bar>?total (snd kv)\<bar>) (objectEntries groups))"
    by (simp add: groupSums_def comp_def)
  also have "\<dots> \<le> sum_list (map (\<lambda>kv. ?abs (snd kv)) (objectEntries groups))"
    by (rule sum_list_mono) (rule abs_total_le)
  also have "\<dots> = ?abs ?vals"
    using objectEntries_total [of "\<lambda>kv. ?abs (snd kv)" groups] absTotal by simp
  finally have "?abs groupSums \<le> 2 ^ 53"
    using bound by simp
  then have "foldl numAdd (Fin 0) groupSums = Fin (?total groupSums)"
    using foldl_numAdd_exact [OF sums_int, of 0] by simp
  with all results sums_val have
    "foldl numAdd (Fin 0) (map eResult (gResults g)) = foldl numAdd (Fin 0) ?vals"
    by simp
  moreover have "length ?vals = length rows"
    by (simp add: nv)
  ultimately show ?thesis
    using col by (simp add: aggregateData_def aggregateSwitch_def)
qed

theorem sum_over_groups_witness:
  "findIndex (headerContains ''amount'') [''Region'', ''Amount''] = Some 1 \<and>
   findIndex (headerContains ''region'') [''Region'', ''Amount''] = Some 0 \<and>
   safeIntegers (map (\<lambda>r. toNumber (cellAt r 1)) integerTable) \<and>
   aggregateData sampleHost [''Region'', ''Amount''] integerTable ''amount'' ''sum''
     (Some ''region'') =
     Inr (Grouped \<lparr> gOperation = ''sum'', gColumn = ''amount'', gGroupBy = ''region'',
            gResults = [\<lparr> eGroup = ''East'', eResult = Fin 5, eCount = 2 \<rparr>,
                        \<lparr> eGroup = ''West'', eResult = Fin 19, eCount = 2 \<rparr>] \<rparr>) \<and>
   aggregateData sampleHost [''Region'', ''Amount''] integerTable ''amount'' ''sum'' None =
     Inr (Simple \<lparr> sOperation = ''sum'', sColumn = ''amount'', sResult = Fin 24, sCount = 4 \<rparr>)"
proof -
  have h1: "findIndex (headerContains ''amount'') [''Region'', ''Amount''] = Some 1"
    by (simp add: lookup_defs)
  have h2: "findIndex (headerContains ''region'') [''Region'', ''Amount''] = Some 0"
    by (simp add: lookup_defs)
  have h3: "''region'' \<noteq> []" by simp
  have safe: "safeIntegers (map (\<lambda>r. toNumber (cellAt r 1)) integerTable)"
    by (simp add: safeIntegers_def integerTable_def cellAt_def isInteger_def finVal_def
        num_defs str_defs)
  from sum_over_groups [OF h1 h3 h2 safe integerTable_grouped]
  have "aggregateData sampleHost [''Region'', ''Amount''] integerTable ''amount'' ''sum'' None =
     Inr (Simple \<lparr> sOperation = ''sum'', sColumn = ''amount'', sResult = Fin 24, sCount = 4 \<rparr>)"
    by (simp add: integerTable_def roundDouble_int)
  with h1 h2 safe integerTable_grouped show ?thesis by simp
qed

end
